theory Spec2Isabelle
  imports Main "HOL-Library.Sublist" "HOL-Library.List_Lexorder" "HOL-Library.Char_ord"
begin

section \<open>JavaScript values used by the plugin\<close>

text \<open>
  A thrown \<^verbatim>\<open>Error\<close> is represented by its message. Numbers are integers: the
  preferences read by the pipeline are integer preferences, and \<^verbatim>\<open>Math.pow(2, attempt)\<close>
  is exact for every attempt count the loop can reach before the cap of 30000 applies.
\<close>

type_synonym js_error = string

text \<open>The message of the \<^verbatim>\<open>TypeError\<close> raised when a property of \<^verbatim>\<open>undefined\<close>
  (or of \<^verbatim>\<open>false\<close>) is read or called; its wording depends on the engine.\<close>

definition TypeError :: js_error where
  "TypeError = ''TypeError: value is undefined''"

text \<open>\<^verbatim>\<open>String.prototype.includes\<close>, \<^verbatim>\<open>startsWith\<close> and \<^verbatim>\<open>endsWith\<close>.\<close>

fun str_includes :: "string \<Rightarrow> string \<Rightarrow> bool" where
  "str_includes [] sub = (sub = [])"
| "str_includes (c # cs) sub = (prefix sub (c # cs) \<or> str_includes cs sub)"

definition startsWith :: "string \<Rightarrow> string \<Rightarrow> bool" where
  "startsWith s p = prefix p s"

definition endsWith :: "string \<Rightarrow> string \<Rightarrow> bool" where
  "endsWith s p = suffix p s"

text \<open>A \<^verbatim>\<open>Set\<close> keeps its elements in insertion order; adding a present element
  changes nothing. \<^verbatim>\<open>new Set(xs)\<close> adds the elements of \<^verbatim>\<open>xs\<close> from left to right, and
  spreading the set lists them in insertion order.\<close>

definition Set_add :: "'a list \<Rightarrow> 'a \<Rightarrow> 'a list" where
  "Set_add s x = (if x \<in> set s then s else s @ [x])"

definition new_Set :: "'a list \<Rightarrow> 'a list" where
  "new_Set xs = foldl Set_add [] xs"

text \<open>Decimal rendering of a number inside a template literal.\<close>

definition digit_char :: "nat \<Rightarrow> char" where
  "digit_char d = ''0123456789'' ! d"

fun show_nat :: "nat \<Rightarrow> string" where
  "show_nat n = (if n < 10 then [digit_char n] else show_nat (n div 10) @ [digit_char (n mod 10)])"

definition show_int :: "int \<Rightarrow> string" where
  "show_int i = (if i < 0 then CHR ''-'' # show_nat (nat (- i)) else show_nat (nat i))"

text \<open>\<^verbatim>\<open>parseInt(s, 10)\<close>: leading white space is skipped, an optional sign is read, then the
  longest run of decimal digits; \<open>None\<close> is \<^verbatim>\<open>NaN\<close> (no digit). The value is the
  exact integer, as the double is for every run of digits below \<open>2^53\<close>.\<close>

definition is_space :: "char \<Rightarrow> bool" where
  "is_space c = (c \<in> set [CHR '' '', CHR 0x09, CHR 0x0A, CHR 0x0B, CHR 0x0C, CHR 0x0D])"

definition is_digit :: "char \<Rightarrow> bool" where
  "is_digit c = (CHR ''0'' \<le> c \<and> c \<le> CHR ''9'')"

definition digits_value :: "string \<Rightarrow> nat" where
  "digits_value ds = foldl (\<lambda>a c. 10 * a + (of_char c - 48)) 0 ds"

definition parseInt10 :: "string \<Rightarrow> int option" where
  "parseInt10 s =
     (let t = dropWhile is_space s;
          neg = (t \<noteq> [] \<and> hd t = CHR ''-'');
          u = (if t \<noteq> [] \<and> (hd t = CHR ''-'' \<or> hd t = CHR ''+'') then tl t else t);
          ds = takeWhile is_digit u
      in if ds = [] then None
         else Some ((if neg then - 1 else 1) * int (digits_value ds)))"

section \<open>Preferences\<close>

text \<open>The preferences of \<^verbatim>\<open>addon/prefs.js\<close>, as \<^verbatim>\<open>getPref\<close> returns them.\<close>

record prefs =
  baseURL :: string
  apiKey :: string
  model :: string
  tagSource :: string
  maxTags :: int
  temperature :: string
  includeFullText :: bool
  maxFullTextLength :: int
  tagPrefixFilter :: string
  systemPrompt :: string
  concurrency :: int
  requestInterval :: int

section \<open>Completion client\<close>

datatype role = System | User | Assistant

record ChatMessage =
  role :: role
  content :: string

text \<open>The structured-output schema is fixed except for the schema of one tag: any string,
  or one of an enumerated list.\<close>

datatype tag_item_schema = AnyString | EnumOf "string list"

record ResponseFormat =
  schema_name :: string
  strict :: bool
  tag_items :: tag_item_schema

text \<open>Message objects live in a store: a request holds references to them, so that two
  arrays can share one message object.\<close>

type_synonym addr = nat
type_synonym msg_heap = "addr \<Rightarrow> ChatMessage"

record ChatCompletionRequest =
  messages :: "addr list"
  req_temperature :: string
  max_tokens :: int
  response_format :: "ResponseFormat option"

record chat_options =
  opt_maxRetries :: "int option"
  opt_useStructuredOutput :: "bool option"

text \<open>The text of \<^verbatim>\<open>choices[i].message.content\<close> is represented by what
  \<^verbatim>\<open>JSON.parse\<close> makes of it: a \<^verbatim>\<open>SyntaxError\<close> with its message, or an object
  with its \<^verbatim>\<open>tags\<close> and \<^verbatim>\<open>reasoning\<close>.\<close>

datatype json_text = ContentNotJson js_error | ContentJson "string list" string

record ChatCompletionResponse =
  choices :: "json_text list"

text \<open>What \<^verbatim>\<open>response.json()\<close> gives: a rejection, or an object of which the code reads
  \<^verbatim>\<open>error?.message\<close> and \<^verbatim>\<open>choices\<close>.\<close>

datatype json_body = BodyNotJson js_error | BodyJson "string option" "json_text list"

record http_response =
  status :: nat
  statusText :: string
  retry_after :: "string option"
  body :: json_body

datatype fetch_outcome = NetworkError js_error | Response http_response

record request_body =
  b_model :: string
  b_messages :: "ChatMessage list"
  b_temperature :: string
  b_max_tokens :: int
  b_response_format :: "ResponseFormat option"

text \<open>The provider: what the k-th \<^verbatim>\<open>fetch\<close> of a run answers to a request body.\<close>

type_synonym server = "nat \<Rightarrow> request_body \<Rightarrow> fetch_outcome"

text \<open>The observable effects of the client, in order: the requests sent, with their URL,
  headers and body, and the sleeps, with their delay in milliseconds; \<open>Sleep None\<close> is
  a sleep of \<^verbatim>\<open>NaN\<close> milliseconds. The debug log is not modelled. The network state
  counts the requests sent so far and holds the effects so far.\<close>

datatype effect = Fetch string "(string \<times> string) list" request_body | Sleep "int option"

record net =
  sent :: nat
  trace :: "effect list"

definition strip_trailing_slashes :: "string \<Rightarrow> string" where
  "strip_trailing_slashes s = rev (dropWhile (\<lambda>c. c = CHR ''/'') (rev s))"

definition buildURL :: "prefs \<Rightarrow> string" where
  "buildURL p =
     (let base = strip_trailing_slashes (baseURL p)
      in if endsWith base ''/chat/completions'' then base else base @ ''/chat/completions'')"

definition buildHeaders :: "prefs \<Rightarrow> (string \<times> string) list" where
  "buildHeaders p =
     [(''Content-Type'', ''application/json''), (''Authorization'', ''Bearer '' @ apiKey p)]"

definition backoff :: "int \<Rightarrow> int" where
  "backoff attempt = min (1000 * 2 ^ nat attempt) 30000"

definition response_ok :: "http_response \<Rightarrow> bool" where
  "response_ok r = (200 \<le> status r \<and> status r \<le> 299)"

definition errorMessage :: "http_response \<Rightarrow> js_error" where
  "errorMessage r =
     ''HTTP '' @ show_nat (status r) @ '': '' @ statusText r @
     (case body r of
        BodyNotJson _ \<Rightarrow> []
      | BodyJson m _ \<Rightarrow> '' - '' @ (case m of None \<Rightarrow> [] | Some t \<Rightarrow> t))"

text \<open>One iteration of the retry loop of \<^verbatim>\<open>chatCompletion\<close>, after its
  \<^verbatim>\<open>fetch\<close>: it returns the result, or goes on to the next attempt with the last error
  and the sleeps it made.\<close>

datatype iteration = Return ChatCompletionResponse | Continue "js_error option" "effect list"

definition on_catch :: "int \<Rightarrow> int \<Rightarrow> js_error \<Rightarrow> iteration" where
  "on_catch maxRetries attempt err =
     Continue (Some err) (if attempt < maxRetries then [Sleep (Some (backoff attempt))] else [])"

definition attempt_body :: "fetch_outcome \<Rightarrow> int \<Rightarrow> int \<Rightarrow> js_error option \<Rightarrow> iteration" where
  "attempt_body out maxRetries attempt lastError =
     (case out of
        NetworkError msg \<Rightarrow> on_catch maxRetries attempt msg
      | Response r \<Rightarrow>
          if status r = 429 then
            Continue lastError
              [Sleep (case retry_after r of
                        None \<Rightarrow> Some (backoff attempt)
                      | Some h \<Rightarrow>
                          if h = [] then Some (backoff attempt)
                          else map_option (\<lambda>v. v * 1000) (parseInt10 h))]
          else if 500 \<le> status r \<and> attempt < maxRetries then
            Continue lastError [Sleep (Some (backoff attempt))]
          else if \<not> response_ok r then on_catch maxRetries attempt (errorMessage r)
          else (case body r of
                  BodyNotJson msg \<Rightarrow> on_catch maxRetries attempt msg
                | BodyJson _ cs \<Rightarrow> Return \<lparr>choices = cs\<rparr>))"

function chatCompletion_loop ::
  "string \<Rightarrow> (string \<times> string) list \<Rightarrow> server \<Rightarrow> request_body \<Rightarrow> int \<Rightarrow> int \<Rightarrow>
   js_error option \<Rightarrow> net \<Rightarrow> (js_error + ChatCompletionResponse) \<times> net" where
  "chatCompletion_loop url headers srv b maxRetries attempt lastError n =
     (if attempt \<le> maxRetries then
        (case attempt_body (srv (sent n) b) maxRetries attempt lastError of
           Return r \<Rightarrow>
             (Inr r, n\<lparr>sent := sent n + 1, trace := trace n @ [Fetch url headers b]\<rparr>)
         | Continue le sleeps \<Rightarrow>
             chatCompletion_loop url headers srv b maxRetries (attempt + 1) le
               (n\<lparr>sent := sent n + 1, trace := trace n @ [Fetch url headers b] @ sleeps\<rparr>))
      else
        (Inl (case lastError of Some e \<Rightarrow> e | None \<Rightarrow> ''Request failed after all retries''), n))"
  by pat_completeness auto
termination
  by (relation "measure (\<lambda>(url, headers, srv, b, maxRetries, attempt, lastError, n).
                  nat (maxRetries + 1 - attempt))") auto

definition build_body :: "prefs \<Rightarrow> msg_heap \<Rightarrow> ChatCompletionRequest \<Rightarrow> bool \<Rightarrow> request_body" where
  "build_body p heap request useStructuredOutput =
     \<lparr>b_model = model p,
      b_messages = map heap (messages request),
      b_temperature = req_temperature request,
      b_max_tokens = max_tokens request,
      b_response_format = (if useStructuredOutput then response_format request else None)\<rparr>"

text \<open>\<^verbatim>\<open>options?.maxRetries ?? 3\<close> and \<^verbatim>\<open>options?.useStructuredOutput ?? true\<close>.\<close>

definition maxRetries_of :: "chat_options \<Rightarrow> int" where
  "maxRetries_of options = (case opt_maxRetries options of None \<Rightarrow> 3 | Some m \<Rightarrow> m)"

definition useStructuredOutput_of :: "chat_options \<Rightarrow> bool" where
  "useStructuredOutput_of options =
     (case opt_useStructuredOutput options of None \<Rightarrow> True | Some u \<Rightarrow> u)"

definition chatCompletion ::
  "prefs \<Rightarrow> server \<Rightarrow> msg_heap \<Rightarrow> ChatCompletionRequest \<Rightarrow> chat_options \<Rightarrow> net \<Rightarrow>
   (js_error + ChatCompletionResponse) \<times> net" where
  "chatCompletion p srv heap request options n =
     chatCompletion_loop (buildURL p) (buildHeaders p) srv
       (build_body p heap request (useStructuredOutput_of options)) (maxRetries_of options) 0 None n"

definition json_instruction :: string where
  "json_instruction =
     [CHR 0x0A, CHR 0x0A] @
     ''IMPORTANT: You must respond with ONLY a valid JSON object, no other text. '' @
     ''The JSON must have this exact structure: { '' @
     [CHR 0x22] @ ''tags'' @ [CHR 0x22] @ '': ['' @
     [CHR 0x22] @ ''tag1'' @ [CHR 0x22] @ '', '' @
     [CHR 0x22] @ ''tag2'' @ [CHR 0x22] @ ''], '' @
     [CHR 0x22] @ ''reasoning'' @ [CHR 0x22] @ '': '' @
     [CHR 0x22] @ ''explanation'' @ [CHR 0x22] @ '' }''"

text \<open>\<^verbatim>\<open>chatCompletionWithFallback\<close> returns the result, the message store as the call
  leaves it, and the network state. \<^verbatim>\<open>[...request.messages]\<close> copies the references, not
  the message objects.\<close>

definition chatCompletionWithFallback ::
  "prefs \<Rightarrow> server \<Rightarrow> msg_heap \<Rightarrow> ChatCompletionRequest \<Rightarrow> net \<Rightarrow>
   (js_error + ChatCompletionResponse) \<times> msg_heap \<times> net" where
  "chatCompletionWithFallback p srv heap request n =
     (case chatCompletion p srv heap request
             \<lparr>opt_maxRetries = None, opt_useStructuredOutput = Some True\<rparr> n of
        (Inr r, n1) \<Rightarrow> (Inr r, heap, n1)
      | (Inl err, n1) \<Rightarrow>
          if str_includes err ''response_format'' \<or> str_includes err ''json_schema''
             \<or> str_includes err ''not supported''
          then
            (let modifiedMessages = messages request
             in if modifiedMessages = [] then (Inl TypeError, heap, n1)
                else
                  (let a = last modifiedMessages;
                       lastMsg = heap a;
                       heap1 = (if role lastMsg = User
                                then heap(a := lastMsg\<lparr>content := content lastMsg @ json_instruction\<rparr>)
                                else heap)
                   in case chatCompletion p srv heap1 (request\<lparr>response_format := None\<rparr>)
                             \<lparr>opt_maxRetries = None, opt_useStructuredOutput = Some False\<rparr> n1 of
                        (res, n2) \<Rightarrow> (res, heap1, n2)))
          else (Inl err, heap, n1))"

section \<open>The host store\<close>

text \<open>
  The library of the host application is not part of the plugin. An item is represented by
  what the plugin reads of it; the store holds the item objects by identifier
  (\<^verbatim>\<open>Zotero.Items.get\<close>), the persisted tags of each item, and the log of the saves made.
\<close>

record zotero_item =
  item_id :: nat
  item_fields :: "string \<Rightarrow> string"
  item_isAttachment :: bool
  item_parentID :: "nat option"
  item_isRegularItem :: bool
  item_libraryID :: nat
  item_tags :: "string list"
  item_creators :: "(string \<times> string) list"
  item_itemType :: string

record host =
  Items :: "nat \<Rightarrow> zotero_item option"
  Tags_getAll :: "nat \<Rightarrow> js_error + string list"
  Items_getAll :: "nat \<Rightarrow> zotero_item list"
  extractFullText :: "zotero_item \<Rightarrow> zotero_item option \<Rightarrow> int \<Rightarrow> js_error + string"
  saved_tags :: "nat \<Rightarrow> string list"
  saves :: "nat list"

text \<open>Modelled from the spec: \<^verbatim>\<open>Zotero.Item.addTag\<close> is host code, absent from the
  sources. The spec gives its behaviour: a tag already present on the item makes the add a
  no-op; otherwise the tag is added to the item. \<^verbatim>\<open>applyTags\<close> below takes the host's
  \<^verbatim>\<open>addTag\<close> as a parameter; this one is the \<^verbatim>\<open>addTag\<close> of the examples.\<close>

definition list_addTag :: "string \<Rightarrow> zotero_item \<Rightarrow> zotero_item" where
  "list_addTag t it =
     (if t \<in> set (item_tags it) then it else it\<lparr>item_tags := item_tags it @ [t]\<rparr>)"

section \<open>Tag-suggestion engine\<close>

record TagResult =
  itemID :: nat
  title :: string
  suggestedTags :: "string list"
  appliedTags :: "string list"
  reasoning :: string
  error :: "string option"

definition getAvailableTags :: "prefs \<Rightarrow> host \<Rightarrow> nat \<Rightarrow> string list" where
  "getAvailableTags p h libraryID =
     (let prefixFilter = (if tagPrefixFilter p = [] then ''_'' else tagPrefixFilter p);
          allTagsData =
            (case Tags_getAll h libraryID of
               Inr ts \<Rightarrow> ts
             | Inl _ \<Rightarrow>
                 foldl (\<lambda>tagSet libItem.
                          if item_isRegularItem libItem
                          then foldl (\<lambda>s t. if t \<noteq> [] then Set_add s t else s) tagSet (item_tags libItem)
                          else tagSet)
                   [] (Items_getAll h libraryID))
      in sort (filter (\<lambda>name. \<not> startsWith name prefixFilter)
                 (filter (\<lambda>name. name \<noteq> []) allTagsData)))"

fun join :: "string \<Rightarrow> string list \<Rightarrow> string" where
  "join sep [] = []"
| "join sep [x] = x"
| "join sep (x # y # ys) = x @ sep @ join sep (y # ys)"

definition trim :: "string \<Rightarrow> string" where
  "trim s = rev (dropWhile is_space (rev (dropWhile is_space s)))"

record metadata =
  md_title :: string
  md_abstractNote :: string
  md_creators :: string
  md_itemType :: string
  md_publicationTitle :: string
  md_date :: string
  md_currentTags :: string
  md_doi :: string
  md_url :: string
  md_extra :: string

definition getItemMetadata :: "zotero_item \<Rightarrow> metadata" where
  "getItemMetadata item =
     \<lparr>md_title = item_fields item ''title'',
      md_abstractNote = item_fields item ''abstractNote'',
      md_creators = join ''; '' (map (\<lambda>(firstName, lastName). trim (firstName @ '' '' @ lastName))
                                  (item_creators item)),
      md_itemType = item_itemType item,
      md_publicationTitle = item_fields item ''publicationTitle'',
      md_date = item_fields item ''date'',
      md_currentTags = join '', '' (item_tags item),
      md_doi = item_fields item ''DOI'',
      md_url = item_fields item ''url'',
      md_extra = item_fields item ''extra''\<rparr>"

definition nl :: string where
  "nl = [CHR 0x0A]"

definition buildPrompt :: "metadata \<Rightarrow> string \<Rightarrow> string list \<Rightarrow> string \<Rightarrow> int \<Rightarrow> string" where
  "buildPrompt md fullText availableTags tagSrc maxT =
     (let basis = (if fullText \<noteq> []
                   then ''Use both the metadata and full text content to make accurate suggestions.''
                   else ''Base suggestions on the available metadata.'');
          prompt0 =
            ''Analyze this document and suggest relevant tags.'' @ nl @ nl @ ''DOCUMENT:'' @ nl @
            ''Title: '' @ md_title md @ nl @
            ''Authors: '' @ md_creators md @ nl @
            ''Type: '' @ md_itemType md @ nl @
            ''Publication: '' @ md_publicationTitle md @ nl @
            ''Date: '' @ md_date md @ nl @
            ''Abstract: '' @ md_abstractNote md @ nl @
            ''Current Tags: '' @ md_currentTags md @ nl @
            ''DOI: '' @ md_doi md @ nl @
            ''URL: '' @ md_url md @ nl @
            ''Extra: '' @ md_extra md;
          prompt1 = (if fullText \<noteq> []
                     then prompt0 @ nl @ nl @ ''FULL TEXT CONTENT:'' @ nl @ fullText
                     else prompt0)
      in if tagSrc = ''existing'' then
           prompt1 @ nl @ nl @ ''AVAILABLE TAGS TO CHOOSE FROM:'' @ nl @ join '', '' availableTags @
           nl @ nl @ ''Please suggest up to '' @ show_int maxT @
           '' relevant tags from the available list that would categorize this document well. '' @
           basis @ '' Only suggest tags that exist in the available list above.''
         else
           (if availableTags \<noteq> []
            then prompt1 @ nl @ nl @ ''EXISTING LIBRARY TAGS (for reference):'' @ nl @
                 join '', '' availableTags
            else prompt1) @
           nl @ nl @ ''Please suggest up to '' @ show_int maxT @
           '' relevant tags that would categorize this document well. '' @ basis @
           '' You may suggest existing tags from the list above or create new descriptive tags.'')"

definition buildResponseFormat :: "string list \<Rightarrow> string \<Rightarrow> ResponseFormat" where
  "buildResponseFormat availableTags tagSrc =
     \<lparr>schema_name = ''tag_suggestions'',
      strict = True,
      tag_items = (if tagSrc = ''existing'' then EnumOf availableTags else AnyString)\<rparr>"

definition default_systemPrompt :: string where
  "default_systemPrompt =
     ''You are a research librarian helping categorize academic documents. '' @
     ''Suggest only tags that best describe the document's content, methodology, and subject area.''"

text \<open>The post-filter of \<^verbatim>\<open>suggestTags\<close>:
  \<^verbatim>\<open>[...new Set(parsed.tags)].filter((tag) => !currentTags.includes(tag))\<close>.\<close>

definition filterSuggested :: "string list \<Rightarrow> string list \<Rightarrow> string list" where
  "filterSuggested parsed_tags currentTags =
     filter (\<lambda>tag. \<not> (tag \<in> set currentTags)) (new_Set parsed_tags)"

definition getTitle :: "zotero_item \<Rightarrow> string" where
  "getTitle item = (if item_fields item ''title'' = [] then ''(untitled)'' else item_fields item ''title'')"

definition error_record :: "nat \<Rightarrow> string \<Rightarrow> js_error \<Rightarrow> TagResult" where
  "error_record i t msg =
     \<lparr>itemID = i, title = t, suggestedTags = [], appliedTags = [], reasoning = [],
      error = Some msg\<rparr>"

text \<open>The request of \<^verbatim>\<open>suggestTags\<close>: its two messages are fresh objects, at
  addresses 0 and 1 of a store of their own. The temperature is passed on as the text of
  the preference.\<close>

definition suggest_request ::
  "prefs \<Rightarrow> zotero_item \<Rightarrow> string \<Rightarrow> string list \<Rightarrow> msg_heap \<times> ChatCompletionRequest" where
  "suggest_request p targetItem fullText availableTags =
     (let md = getItemMetadata targetItem;
          prompt = buildPrompt md fullText availableTags (tagSource p) (maxTags p);
          responseFormat = buildResponseFormat availableTags (tagSource p);
          sysPrompt = (if systemPrompt p = [] then default_systemPrompt else systemPrompt p)
      in (\<lambda>a. if a = 0 then \<lparr>role = System, content = sysPrompt\<rparr>
               else \<lparr>role = User, content = prompt\<rparr>,
          \<lparr>messages = [0, 1], req_temperature = temperature p, max_tokens = 1000,
           response_format = Some responseFormat\<rparr>))"

text \<open>The part of \<^verbatim>\<open>suggestTags\<close> after the target item is resolved. Every exception
  inside the \<^verbatim>\<open>try\<close> ends in the error record of the \<^verbatim>\<open>catch\<close>. The host store is
  the one of the moment of the call.\<close>

definition suggest_for_target ::
  "prefs \<Rightarrow> host \<Rightarrow> server \<Rightarrow> zotero_item \<Rightarrow> zotero_item \<Rightarrow> zotero_item option \<Rightarrow> net \<Rightarrow>
   TagResult \<times> net" where
  "suggest_for_target p h srv item targetItem sourceAttachment n =
     (let availableTags = getAvailableTags p h (item_libraryID targetItem)
      in if tagSource p = ''existing'' \<and> availableTags = [] then
           (error_record (item_id targetItem) (getTitle item) ''No available tags found in library'', n)
         else
           (case (if includeFullText p
                  then extractFullText h targetItem sourceAttachment (maxFullTextLength p)
                  else Inr []) of
              Inl e \<Rightarrow> (error_record (item_id item) (getTitle item) e, n)
            | Inr fullText \<Rightarrow>
                (case chatCompletionWithFallback p srv
                        (fst (suggest_request p targetItem fullText availableTags))
                        (snd (suggest_request p targetItem fullText availableTags)) n of
                   (Inl e, _, n1) \<Rightarrow> (error_record (item_id item) (getTitle item) e, n1)
                 | (Inr result, _, n1) \<Rightarrow>
                     (case choices result of
                        [] \<Rightarrow> (error_record (item_id item) (getTitle item) TypeError, n1)
                      | ContentNotJson e # _ \<Rightarrow>
                          (error_record (item_id item) (getTitle item) e, n1)
                      | ContentJson parsed_tags parsed_reasoning # _ \<Rightarrow>
                          (\<lparr>itemID = item_id targetItem,
                            title = getTitle targetItem,
                            suggestedTags = filterSuggested parsed_tags (item_tags targetItem),
                            appliedTags = [],
                            reasoning = parsed_reasoning,
                            error = None\<rparr>, n1)))))"

text \<open>\<^verbatim>\<open>suggestTags\<close>. A \<^verbatim>\<open>parentID\<close> that is missing or 0 is falsy.\<close>

definition suggestTags :: "prefs \<Rightarrow> host \<Rightarrow> server \<Rightarrow> zotero_item \<Rightarrow> net \<Rightarrow> TagResult \<times> net" where
  "suggestTags p h srv item n =
     (if item_isAttachment item then
        (case item_parentID item of
           None \<Rightarrow>
             (error_record (item_id item) (getTitle item) ''Standalone attachment without parent'', n)
         | Some parentID \<Rightarrow>
             if parentID = 0 then
               (error_record (item_id item) (getTitle item) ''Standalone attachment without parent'', n)
             else
               (case Items h parentID of
                  None \<Rightarrow> (error_record (item_id item) (getTitle item) TypeError, n)
                | Some targetItem \<Rightarrow>
                    if \<not> item_isRegularItem targetItem
                    then (error_record (item_id item) (getTitle item) ''Not a regular item'', n)
                    else suggest_for_target p h srv item targetItem (Some item) n))
      else if \<not> item_isRegularItem item
      then (error_record (item_id item) (getTitle item) ''Not a regular item'', n)
      else suggest_for_target p h srv item item None n)"

text \<open>\<^verbatim>\<open>applyTags\<close>. \<open>addTag\<close> is the host's \<^verbatim>\<open>Zotero.Item.addTag\<close>, and
  \<open>save_err\<close> is what \<^verbatim>\<open>item.saveTx()\<close> does when it is called: \<open>None\<close> when the
  save succeeds, the error when it rejects. A save that succeeds persists the tags of the
  item and is logged. The result is the error thrown, if any, and the store.\<close>

definition saveTx :: "nat \<Rightarrow> zotero_item \<Rightarrow> host \<Rightarrow> host" where
  "saveTx i item h = h\<lparr>saved_tags := (saved_tags h)(i := item_tags item), saves := saves h @ [i]\<rparr>"

definition applyTags ::
  "(string \<Rightarrow> zotero_item \<Rightarrow> zotero_item) \<Rightarrow> host \<Rightarrow> nat \<Rightarrow> string list \<Rightarrow> js_error option \<Rightarrow>
   js_error option \<times> host" where
  "applyTags addTag h i tags save_err =
     (case Items h i of
        None \<Rightarrow> (if tags = [] then (None, h) else (Some TypeError, h))
      | Some item \<Rightarrow>
          (let item1 = foldl (\<lambda>it tag. addTag tag it) item tags;
               h1 = h\<lparr>Items := (Items h)(i := Some item1)\<rparr>
           in if tags \<noteq> [] then
                (case save_err of
                   None \<Rightarrow> (None, saveTx i item1 h1)
                 | Some e \<Rightarrow> (Some e, h1))
              else (None, h1)))"

section \<open>Batch scheduler\<close>

text \<open>
  The class \<^verbatim>\<open>Semaphore\<close>. A queued closure is represented by the task whose
  \<^verbatim>\<open>acquire\<close> promise it resolves. \<open>acquire\<close> tells whether the caller was admitted at
  once; \<open>release\<close> tells which waiting task, if any, it has admitted.
\<close>

record Semaphore =
  queue :: "nat list"
  active :: int
  limit :: int

definition acquire :: "nat \<Rightarrow> Semaphore \<Rightarrow> Semaphore \<times> bool" where
  "acquire i sem =
     (if active sem < limit sem then (sem\<lparr>active := active sem + 1\<rparr>, True)
      else (sem\<lparr>queue := queue sem @ [i]\<rparr>, False))"

definition release :: "Semaphore \<Rightarrow> Semaphore \<times> nat option" where
  "release sem =
     (let sem1 = sem\<lparr>active := active sem - 1\<rparr>
      in case queue sem1 of
           [] \<Rightarrow> (sem1, None)
         | j # rest \<Rightarrow> (sem1\<lparr>queue := rest, active := active sem1 + 1\<rparr>, Some j))"

text \<open>
  \<^verbatim>\<open>BatchProgress\<close>. Its \<^verbatim>\<open>results\<close> field is a reference to an array of the array
  store, so that two progress objects can share one array.
\<close>

record BatchProgress =
  total_p :: nat
  current :: nat
  results :: addr
  cancelled :: bool

text \<open>
  Where a call of \<^verbatim>\<open>processItem\<close> stands: before its start, at one of its
  \<^verbatim>\<open>await\<close>s, or finished. A finished call has returned after appending its result
  record (\<open>Completed\<close>), has returned at a cancellation check (\<open>Skipped\<close>), or has
  thrown (\<open>Threw\<close>), in its \<^verbatim>\<open>try\<close> block or in its \<^verbatim>\<open>finally\<close> block.
\<close>

datatype pc =
    NotStarted
  | Queued
  | Acquired
  | Sleeping
  | Suggesting
  | Confirming TagResult
  | Applying TagResult "string list"
  | Completed
  | Skipped
  | Threw js_error

datatype promise_state = Pending | Resolved | Rejected js_error

text \<open>
  The state of a run of \<^verbatim>\<open>processBatch\<close>: the variables of its closure
  (\<^verbatim>\<open>semaphore\<close>, \<^verbatim>\<open>cancelled\<close>, \<^verbatim>\<open>requestCount\<close>, \<^verbatim>\<open>interval\<close>,
  whether a \<^verbatim>\<open>confirmFn\<close> was given, \<^verbatim>\<open>onProgress\<close>, \<^verbatim>\<open>progress\<close>), the array
  store, where every
  call of \<^verbatim>\<open>processItem\<close> stands, the tasks in the order in which the semaphore admitted
  them, the objects handed to \<^verbatim>\<open>onProgress\<close> in the order of the calls, and the state of
  the returned promise. The callback \<^verbatim>\<open>onProgress\<close> is represented by what a call
  of it does with the snapshot it is handed: it returns (\<open>None\<close>), or it throws.
\<close>

record sched =
  sem :: Semaphore
  cancelled_var :: bool
  requestCount :: nat
  interval :: int
  has_confirmFn :: bool
  onProgress :: "BatchProgress \<Rightarrow> js_error option"
  progress :: BatchProgress
  arrays :: "addr \<Rightarrow> TagResult list"
  tasks :: "pc list"
  admitted :: "nat list"
  emitted :: "BatchProgress list"
  promise :: promise_state

text \<open>
  What the event loop delivers: a call of \<^verbatim>\<open>cancel()\<close>, or the completion of the
  \<^verbatim>\<open>await\<close> a task stands at, with the value or the exception the awaited call gives.
  \<^verbatim>\<open>suggestTags\<close> catches its errors and always gives a record.
\<close>

datatype event =
    CancelCalled
  | AcquireDone nat
  | SleepDone nat
  | SuggestDone nat TagResult
  | ConfirmDone nat "js_error + string list option"
  | ApplyDone nat "js_error option"

definition finished :: "pc \<Rightarrow> bool" where
  "finished c = (case c of Completed \<Rightarrow> True | Skipped \<Rightarrow> True | Threw _ \<Rightarrow> True | _ \<Rightarrow> False)"

definition fulfilled :: "pc \<Rightarrow> bool" where
  "fulfilled c = (case c of Completed \<Rightarrow> True | Skipped \<Rightarrow> True | _ \<Rightarrow> False)"

text \<open>\<^verbatim>\<open>Promise.all\<close> over the calls of \<^verbatim>\<open>processItem\<close>: it rejects with the first
  rejection and resolves when every call is fulfilled; once settled it stays.\<close>

definition settle :: "pc list \<Rightarrow> pc \<Rightarrow> promise_state \<Rightarrow> promise_state" where
  "settle ts outcome pr =
     (case pr of
        Pending \<Rightarrow>
          (case outcome of
             Threw e \<Rightarrow> Rejected e
           | _ \<Rightarrow> if list_all fulfilled ts then Resolved else Pending)
      | _ \<Rightarrow> pr)"

text \<open>\<^verbatim>\<open>progress.results.push(result)\<close>.\<close>

definition push_result :: "TagResult \<Rightarrow> sched \<Rightarrow> sched" where
  "push_result r s =
     s\<lparr>arrays := (arrays s)(results (progress s) := arrays s (results (progress s)) @ [r])\<rparr>"

text \<open>How a call of \<^verbatim>\<open>processItem\<close> settles once \<^verbatim>\<open>onProgress\<close> has been called
  with the snapshot in its \<^verbatim>\<open>finally\<close> block: as its \<^verbatim>\<open>try\<close> block ended when the
  callback returns, and with the exception of the callback when it throws.\<close>

definition settled_outcome :: "sched \<Rightarrow> pc \<Rightarrow> pc" where
  "settled_outcome s outcome =
     (case onProgress s ((progress s)\<lparr>current := current (progress s) + 1\<rparr>) of
        None \<Rightarrow> outcome
      | Some exn \<Rightarrow> Threw exn)"

text \<open>The \<^verbatim>\<open>finally\<close> block of \<^verbatim>\<open>processItem\<close>, entered when the \<^verbatim>\<open>try\<close> block
  has ended with \<open>outcome\<close>, and the settling of the call: the semaphore is released,
  the counter incremented, and \<^verbatim>\<open>{ ...progress }\<close>, a new object with the fields of
  \<^verbatim>\<open>progress\<close>, is handed to \<^verbatim>\<open>onProgress\<close>.\<close>

definition finally_block :: "nat \<Rightarrow> pc \<Rightarrow> sched \<Rightarrow> sched" where
  "finally_block i outcome s =
     (case release (sem s) of
        (sem1, woken) \<Rightarrow>
          (let tasks1 = (case woken of None \<Rightarrow> tasks s | Some j \<Rightarrow> (tasks s)[j := Acquired]);
               admitted1 = (case woken of None \<Rightarrow> admitted s | Some j \<Rightarrow> admitted s @ [j]);
               progress1 = (progress s)\<lparr>current := current (progress s) + 1\<rparr>;
               tasks2 = tasks1[i := settled_outcome s outcome]
           in s\<lparr>sem := sem1, tasks := tasks2, admitted := admitted1, progress := progress1,
                emitted := emitted s @ [progress1],
                promise := settle tasks2 (settled_outcome s outcome) (promise s)\<rparr>))"

text \<open>From \<^verbatim>\<open>requestCount++\<close> to the call of \<^verbatim>\<open>suggestTags\<close>.\<close>

definition after_pacing :: "nat \<Rightarrow> sched \<Rightarrow> sched" where
  "after_pacing i s =
     (let s1 = s\<lparr>requestCount := requestCount s + 1\<rparr>
      in if cancelled_var s1 then finally_block i Skipped s1
         else s1\<lparr>tasks := (tasks s1)[i := Suggesting]\<rparr>)"

text \<open>The start of \<^verbatim>\<open>processItem\<close>, up to its first \<^verbatim>\<open>await\<close>.\<close>

definition processItem_start :: "nat \<Rightarrow> sched \<Rightarrow> sched" where
  "processItem_start i s =
     (if cancelled_var s then s\<lparr>tasks := (tasks s)[i := Skipped]\<rparr>
      else
        (case acquire i (sem s) of
           (sem1, True) \<Rightarrow>
             s\<lparr>sem := sem1, tasks := (tasks s)[i := Acquired], admitted := admitted s @ [i]\<rparr>
         | (sem1, False) \<Rightarrow> s\<lparr>sem := sem1, tasks := (tasks s)[i := Queued]\<rparr>))"

text \<open>One turn of the event loop. An event that does not match the \<^verbatim>\<open>await\<close> its task
  stands at cannot happen, and changes nothing.\<close>

definition step :: "event \<Rightarrow> sched \<Rightarrow> sched" where
  "step e s =
     (case e of
        CancelCalled \<Rightarrow>
          s\<lparr>cancelled_var := True, progress := (progress s)\<lparr>cancelled := True\<rparr>\<rparr>
      | AcquireDone i \<Rightarrow>
          if i < length (tasks s) \<and> tasks s ! i = Acquired then
            (if cancelled_var s then finally_block i Skipped s
             else if 0 < requestCount s \<and> 0 < interval s
             then s\<lparr>tasks := (tasks s)[i := Sleeping]\<rparr>
             else after_pacing i s)
          else s
      | SleepDone i \<Rightarrow>
          if i < length (tasks s) \<and> tasks s ! i = Sleeping then after_pacing i s else s
      | SuggestDone i result \<Rightarrow>
          if i < length (tasks s) \<and> tasks s ! i = Suggesting then
            (if cancelled_var s then finally_block i Skipped s
             else if (error result = None \<or> error result = Some []) \<and> suggestedTags result \<noteq> []
             then (if has_confirmFn s
                   then s\<lparr>tasks := (tasks s)[i := Confirming result]\<rparr>
                   else s\<lparr>tasks := (tasks s)[i := Applying result (suggestedTags result)]\<rparr>)
             else finally_block i Completed (push_result result s))
          else s
      | ConfirmDone i answer \<Rightarrow>
          if i < length (tasks s) then
            (case tasks s ! i of
               Confirming result \<Rightarrow>
                 (case answer of
                    Inl exn \<Rightarrow> finally_block i (Threw exn) s
                  | Inr None \<Rightarrow> finally_block i Completed (push_result result s)
                  | Inr (Some tagsToApply) \<Rightarrow>
                      if tagsToApply \<noteq> []
                      then s\<lparr>tasks := (tasks s)[i := Applying result tagsToApply]\<rparr>
                      else finally_block i Completed (push_result result s))
             | _ \<Rightarrow> s)
          else s
      | ApplyDone i answer \<Rightarrow>
          if i < length (tasks s) then
            (case tasks s ! i of
               Applying result tagsToApply \<Rightarrow>
                 (case answer of
                    Some exn \<Rightarrow> finally_block i (Threw exn) s
                  | None \<Rightarrow>
                      finally_block i Completed
                        (push_result (result\<lparr>appliedTags := tagsToApply\<rparr>) s))
             | _ \<Rightarrow> s)
          else s)"

definition run :: "event list \<Rightarrow> sched \<Rightarrow> sched" where
  "run es s = foldl (\<lambda>s e. step e s) s es"

text \<open>\<^verbatim>\<open>processBatch\<close>, up to its return: the state is set up and every item's
  \<^verbatim>\<open>processItem\<close> runs to its first \<^verbatim>\<open>await\<close>, in the order of the items. The array
  of the results is allocated at address 0.\<close>

definition processBatch ::
  "prefs \<Rightarrow> zotero_item list \<Rightarrow> (BatchProgress \<Rightarrow> js_error option) \<Rightarrow> bool \<Rightarrow> sched" where
  "processBatch p items callback confirmFn =
     (let s0 = \<lparr>sem = \<lparr>queue = [], active = 0,
                       limit = (if concurrency p = 0 then 3 else concurrency p)\<rparr>,
                cancelled_var = False,
                requestCount = 0,
                interval = (if requestInterval p = 0 then 1000 else requestInterval p),
                has_confirmFn = confirmFn,
                onProgress = callback,
                progress = \<lparr>total_p = length items, current = 0, results = 0, cancelled = False\<rparr>,
                arrays = (\<lambda>a. []),
                tasks = replicate (length items) NotStarted,
                admitted = [],
                emitted = [],
                promise = Pending\<rparr>;
          s1 = foldl (\<lambda>s i. processItem_start i s) s0 [0..<length items]
      in s1\<lparr>promise := (if list_all fulfilled (tasks s1) then Resolved else Pending)\<rparr>)"

text \<open>What a caller can do with the snapshot it was handed as the k-th call of
  \<^verbatim>\<open>onProgress\<close>: assign to its \<^verbatim>\<open>current\<close> field, or push onto its
  \<^verbatim>\<open>results\<close>.\<close>

definition caller_set_current :: "nat \<Rightarrow> nat \<Rightarrow> sched \<Rightarrow> sched" where
  "caller_set_current k v s = s\<lparr>emitted := (emitted s)[k := (emitted s ! k)\<lparr>current := v\<rparr>]\<rparr>"

definition caller_push :: "nat \<Rightarrow> TagResult \<Rightarrow> sched \<Rightarrow> sched" where
  "caller_push k r s =
     s\<lparr>arrays := (arrays s)(results (emitted s ! k) := arrays s (results (emitted s ! k)) @ [r])\<rparr>"

text \<open>The results a progress object shows, read through its reference.\<close>

definition results_of :: "sched \<Rightarrow> BatchProgress \<Rightarrow> TagResult list" where
  "results_of s pr = arrays s (results pr)"

section \<open>Notions used to state the properties\<close>

text \<open>A response with status 429 or 5xx that carries no retry-after header.\<close>

definition retryable_no_header :: "fetch_outcome \<Rightarrow> bool" where
  "retryable_no_header out =
     (case out of
        NetworkError _ \<Rightarrow> False
      | Response r \<Rightarrow>
          (status r = 429 \<or> (500 \<le> status r \<and> status r \<le> 599)) \<and> retry_after r = None)"

text \<open>A response with a 4xx status other than 429.\<close>

definition client_error :: "fetch_outcome \<Rightarrow> bool" where
  "client_error out =
     (case out of
        NetworkError _ \<Rightarrow> False
      | Response r \<Rightarrow> 400 \<le> status r \<and> status r \<le> 499 \<and> status r \<noteq> 429)"

text \<open>The delays of the sleeps of a trace, and the number of its requests.\<close>

fun sleeps :: "effect list \<Rightarrow> int option list" where
  "sleeps [] = []"
| "sleeps (Sleep d # es) = d # sleeps es"
| "sleeps (Fetch _ _ _ # es) = sleeps es"

fun fetches :: "effect list \<Rightarrow> nat" where
  "fetches [] = 0"
| "fetches (Sleep _ # es) = fetches es"
| "fetches (Fetch _ _ _ # es) = Suc (fetches es)"

definition fresh_net :: net where
  "fresh_net = \<lparr>sent = 0, trace = []\<rparr>"

subsection \<open>Example inputs\<close>

definition ex_prefs :: prefs where
  "ex_prefs =
     \<lparr>baseURL = ''https://api.openai.com/v1'', apiKey = ''key'', model = ''gpt-4.1-mini'',
      tagSource = ''existing'', maxTags = 8, temperature = ''0.1'', includeFullText = False,
      maxFullTextLength = 12000, tagPrefixFilter = ''_'', systemPrompt = [],
      concurrency = 2, requestInterval = 1000\<rparr>"

definition ex_heap :: msg_heap where
  "ex_heap = (\<lambda>a. if a = 0 then \<lparr>role = System, content = ''You are a librarian.''\<rparr>
                  else \<lparr>role = User, content = ''Suggest tags.''\<rparr>)"

definition ex_request :: ChatCompletionRequest where
  "ex_request =
     \<lparr>messages = [0, 1], req_temperature = ''0.1'', max_tokens = 1000,
      response_format = Some (buildResponseFormat [''biology'', ''physics''] ''existing'')\<rparr>"

definition default_options :: chat_options where
  "default_options = \<lparr>opt_maxRetries = None, opt_useStructuredOutput = None\<rparr>"

text \<open>A provider that answers every request with 401.\<close>

definition srv_unauthorized :: server where
  "srv_unauthorized k b =
     Response \<lparr>status = 401, statusText = ''Unauthorized'', retry_after = None,
               body = BodyJson (Some ''Incorrect API key'') []\<rparr>"

text \<open>A provider that answers 429 without a retry-after header to the first two requests,
  then 503, then succeeds.\<close>

definition srv_busy :: server where
  "srv_busy k b =
     (if k < 2 then
        Response \<lparr>status = 429, statusText = ''Too Many Requests'', retry_after = None,
                  body = BodyJson None []\<rparr>
      else if k = 2 then
        Response \<lparr>status = 503, statusText = ''Service Unavailable'', retry_after = None,
                  body = BodyNotJson ''Unexpected token''\<rparr>
      else
        Response \<lparr>status = 200, statusText = ''OK'', retry_after = None,
                  body = BodyJson None [ContentJson [''biology''] ''about life'']\<rparr>)"

text \<open>A provider that rejects structured output with a 400, and without a schema answers
  with a tag of its own making.\<close>

definition srv_no_schema :: server where
  "srv_no_schema k b =
     (case b_response_format b of
        Some _ \<Rightarrow>
          Response \<lparr>status = 400, statusText = ''Bad Request'', retry_after = None,
                    body = BodyJson (Some ''response_format is not supported'') []\<rparr>
      | None \<Rightarrow>
          Response \<lparr>status = 200, statusText = ''OK'', retry_after = None,
                    body = BodyJson None [ContentJson [''astrology'', ''physics''] ''stars'']\<rparr>)"

text \<open>The item of the scenario: title "Quantum Effects in X", existing tags
  \<open>[physics]\<close>, in a library whose vocabulary is \<open>[physics, biology, chemistry]\<close>.\<close>

definition ex_item :: zotero_item where
  "ex_item =
     \<lparr>item_id = 7,
      item_fields = (\<lambda>f. if f = ''title'' then ''Quantum Effects in X'' else []),
      item_isAttachment = False, item_parentID = None, item_isRegularItem = True,
      item_libraryID = 1, item_tags = [''physics''], item_creators = [(''Ada'', ''Lovelace'')],
      item_itemType = ''journalArticle''\<rparr>"

definition ex_host :: host where
  "ex_host =
     \<lparr>Items = (\<lambda>k. if k = 7 then Some ex_item else None),
      Tags_getAll = (\<lambda>l. Inr [''physics'', ''biology'', ''chemistry'']),
      Items_getAll = (\<lambda>l. [ex_item]),
      extractFullText = (\<lambda>target source maxLen. Inr []),
      saved_tags = (\<lambda>k. if k = 7 then [''physics''] else []),
      saves = []\<rparr>"

subsection \<open>Notions for the scheduler\<close>

text \<open>A task holds a slot of the semaphore from its admission until its
  \<^verbatim>\<open>finally\<close> block releases it.\<close>

definition holding :: "pc \<Rightarrow> bool" where
  "holding c =
     (case c of
        Acquired \<Rightarrow> True | Sleeping \<Rightarrow> True | Suggesting \<Rightarrow> True
      | Confirming _ \<Rightarrow> True | Applying _ _ \<Rightarrow> True | _ \<Rightarrow> False)"

definition is_threw :: "pc \<Rightarrow> bool" where
  "is_threw c = (case c of Threw _ \<Rightarrow> True | _ \<Rightarrow> False)"

definition is_skipped :: "pc \<Rightarrow> bool" where
  "is_skipped c = (c = Skipped)"

definition is_suggesting :: "pc \<Rightarrow> bool" where
  "is_suggesting c = (c = Suggesting)"

text \<open>The number of items skipped by cancellation, and the number of calls of
  \<^verbatim>\<open>suggestTags\<close> in flight.\<close>

definition skipped_count :: "sched \<Rightarrow> nat" where
  "skipped_count s = length (filter is_skipped (tasks s))"

definition in_flight :: "sched \<Rightarrow> nat" where
  "in_flight s = length (filter is_suggesting (tasks s))"



text \<open>The invariants of a run over \<open>n\<close> items: of the semaphore and the tasks, of the
  bookkeeping, and of the batch promise.\<close>

definition struct_inv :: "nat \<Rightarrow> sched \<Rightarrow> bool" where
  "struct_inv n s =
     (length (tasks s) = n
      \<and> active (sem s) = int (length (filter holding (tasks s)))
      \<and> admitted s @ queue (sem s) = [0..<n]
      \<and> (\<forall>i<n. (tasks s ! i = Queued) = (i \<in> set (queue (sem s))))
      \<and> NotStarted \<notin> set (tasks s))"

definition book_inv :: "nat \<Rightarrow> sched \<Rightarrow> bool" where
  "book_inv n s =
     (total_p (progress s) = n
      \<and> current (progress s) = length (filter finished (tasks s))
      \<and> length (emitted s) = current (progress s)
      \<and> (\<forall>k<length (emitted s).
            current (emitted s ! k) = Suc k
            \<and> total_p (emitted s ! k) = n
            \<and> results (emitted s ! k) = results (progress s)))"

definition promise_inv :: "sched \<Rightarrow> bool" where
  "promise_inv s =
     ((promise s = Resolved) = list_all fulfilled (tasks s)
      \<and> (promise s = Pending \<longrightarrow> \<not> list_ex is_threw (tasks s))
      \<and> (\<forall>e. promise s = Rejected e \<longrightarrow> list_ex is_threw (tasks s)))"

definition sched_inv :: "nat \<Rightarrow> sched \<Rightarrow> bool" where
  "sched_inv n s = (struct_inv n s \<and> book_inv n s \<and> promise_inv s)"

text \<open>The invariant of the start of \<^verbatim>\<open>processBatch\<close>, after the first \<open>k\<close> of
  \<open>n\<close> items have called \<^verbatim>\<open>semaphore.acquire()\<close>.\<close>

definition start_inv :: "nat \<Rightarrow> nat \<Rightarrow> sched \<Rightarrow> bool" where
  "start_inv n k s =
     (length (tasks s) = n
      \<and> \<not> cancelled_var s
      \<and> active (sem s) = int (length (filter holding (tasks s)))
      \<and> (queue (sem s) \<noteq> [] \<longrightarrow> limit (sem s) \<le> active (sem s))
      \<and> (0 \<le> limit (sem s) \<longrightarrow> active (sem s) \<le> limit (sem s))
      \<and> admitted s @ queue (sem s) = [0..<k]
      \<and> (\<forall>i<k. (tasks s ! i = Queued) = (i \<in> set (queue (sem s))))
      \<and> (\<forall>i<k. tasks s ! i = Queued \<or> tasks s ! i = Acquired)
      \<and> (\<forall>i<n. k \<le> i \<longrightarrow> tasks s ! i = NotStarted)
      \<and> total_p (progress s) = n \<and> current (progress s) = 0
      \<and> arrays s (results (progress s)) = [] \<and> emitted s = [])"

subsection \<open>Example runs of the scheduler\<close>

text \<open>A callback that always returns, and one that throws at the first snapshot.\<close>

definition ex_onProgress :: "BatchProgress \<Rightarrow> js_error option" where
  "ex_onProgress snap = None"


definition ex_failed :: TagResult where
  "ex_failed = error_record 7 ''Quantum Effects in X'' ''HTTP 401: Unauthorized - Incorrect API key''"

definition ex_suggested :: TagResult where
  "ex_suggested =
     \<lparr>itemID = 7, title = ''Quantum Effects in X'', suggestedTags = [''biology''],
      appliedTags = [], reasoning = ''about life'', error = None\<rparr>"

text \<open>Three items under a limit of two: the first two are admitted at once and both reach
  their call of \<^verbatim>\<open>suggestTags\<close>; the first one's suggestion fails, and its release
  admits the third.\<close>

definition ex_events_three :: "event list" where
  "ex_events_three =
     [AcquireDone 0, AcquireDone 1, SleepDone 1, SuggestDone 0 ex_failed]"



text \<open>\<^verbatim>\<open>cancel()\<close> is called as soon as \<^verbatim>\<open>processBatch\<close> has returned, before the
  only item goes on after its \<^verbatim>\<open>await semaphore.acquire()\<close>.\<close>

definition ex_events_cancelled :: "event list" where
  "ex_events_cancelled = [CancelCalled, AcquireDone 0]"

text \<open>Two items: the first finishes, and a snapshot is handed out; then the second
  finishes.\<close>

definition ex_events_first :: "event list" where
  "ex_events_first = [AcquireDone 0, SuggestDone 0 ex_failed]"

definition ex_events_second :: "event list" where
  "ex_events_second = [AcquireDone 1, SleepDone 1, SuggestDone 1 ex_failed]"



text \<open>Two states of the scheduler that agree on everything but the snapshots handed
  out.\<close>

definition core_eq :: "sched \<Rightarrow> sched \<Rightarrow> bool" where
  "core_eq s t =
     (sem s = sem t \<and> cancelled_var s = cancelled_var t \<and> requestCount s = requestCount t
      \<and> interval s = interval t \<and> has_confirmFn s = has_confirmFn t
      \<and> onProgress s = onProgress t \<and> progress s = progress t
      \<and> arrays s = arrays t \<and> tasks s = tasks t \<and> admitted s = admitted t
      \<and> promise s = promise t)"


section \<open>Properties\<close>

subsection \<open>The post-filter of the suggestion engine\<close>

lemma set_foldl_Set_add: "set (foldl Set_add acc xs) = set acc \<union> set xs"
  by (induction xs arbitrary: acc) (auto simp: Set_add_def)

lemma new_Set_Nil: "new_Set [] = []"
  by (simp add: new_Set_def)

lemma new_Set_snoc: "new_Set (xs @ [x]) = Set_add (new_Set xs) x"
  by (simp add: new_Set_def)

lemma set_new_Set: "set (new_Set xs) = set xs"
  by (simp add: new_Set_def set_foldl_Set_add)

lemma distinct_new_Set: "distinct (new_Set xs)"
  by (induction xs rule: rev_induct)
     (auto simp: new_Set_snoc Set_add_def set_new_Set new_Set_Nil)

lemma new_Set_first_occurrence:
  "new_Set xs = map (\<lambda>i. xs ! i) (filter (\<lambda>i. xs ! i \<notin> set (take i xs)) [0..<length xs])"
proof (induction xs rule: rev_induct)
  case Nil
  show ?case by (simp add: new_Set_Nil)
next
  case (snoc x xs)
  let ?P = "\<lambda>ys i. ys ! i \<notin> set (take i ys)"
  have f: "filter (?P (xs @ [x])) [0..<length xs] = filter (?P xs) [0..<length xs]"
    by (rule filter_cong) (auto simp: nth_append)
  have m: "map (\<lambda>i. (xs @ [x]) ! i) (filter (?P xs) [0..<length xs])
         = map (\<lambda>i. xs ! i) (filter (?P xs) [0..<length xs])"
    by (rule map_cong) (auto simp: nth_append)
  have "map (\<lambda>i. (xs @ [x]) ! i) (filter (?P (xs @ [x])) [0..<length (xs @ [x])])
        = map (\<lambda>i. (xs @ [x]) ! i) (filter (?P (xs @ [x])) [0..<length xs])
          @ (if x \<in> set xs then [] else [x])"
    by simp
  also have "\<dots> = new_Set xs @ (if x \<in> set xs then [] else [x])"
    unfolding f m snoc.IH[symmetric] ..
  also have "\<dots> = new_Set (xs @ [x])"
    by (simp add: new_Set_snoc Set_add_def set_new_Set)
  finally show ?case by simp
qed

lemma new_Set_distinct_id: "distinct xs \<Longrightarrow> new_Set xs = xs"
  by (induction xs rule: rev_induct)
     (auto simp: new_Set_snoc Set_add_def set_new_Set new_Set_Nil)

text \<open>
  Claim C7. For every suggested-tag list \<open>S\<close> and current-tag list \<open>C\<close>, the post-filter
  keeps exactly the elements of \<open>S\<close> that occur neither earlier in \<open>S\<close> nor in \<open>C\<close>, in
  the order of \<open>S\<close>: duplicates are removed keeping the first occurrence, and the tags the
  item already has are dropped. The result has no duplicates, its elements are those of
  \<open>S\<close> that are not in \<open>C\<close>, filtering the result again changes nothing, and
  \<open>[physics, biology]\<close> filtered against \<open>[physics]\<close> is \<open>[biology]\<close>.
\<close>

theorem post_filter_dedup_first_idempotent:
  "filterSuggested S C =
     map (\<lambda>i. S ! i) (filter (\<lambda>i. S ! i \<notin> set (take i S) \<and> S ! i \<notin> set C) [0..<length S])
   \<and> distinct (filterSuggested S C)
   \<and> set (filterSuggested S C) = set S - set C
   \<and> filterSuggested (filterSuggested S C) C = filterSuggested S C
   \<and> filterSuggested [''physics'', ''biology''] [''physics''] = [''biology'']"
proof (intro conjI)
  show "filterSuggested S C =
     map (\<lambda>i. S ! i) (filter (\<lambda>i. S ! i \<notin> set (take i S) \<and> S ! i \<notin> set C) [0..<length S])"
    unfolding filterSuggested_def
    by (subst new_Set_first_occurrence) (simp add: filter_map comp_def conj_commute)
  show d: "distinct (filterSuggested S C)"
    by (simp add: filterSuggested_def distinct_new_Set)
  show "set (filterSuggested S C) = set S - set C"
    by (auto simp: filterSuggested_def set_new_Set)
  show "filterSuggested (filterSuggested S C) C = filterSuggested S C"
    using d by (simp add: filterSuggested_def[of "filterSuggested S C"] new_Set_distinct_id)
       (simp add: filterSuggested_def)
  show "filterSuggested [''physics'', ''biology''] [''physics''] = [''biology'']"
    by (simp add: filterSuggested_def new_Set_def Set_add_def)
qed

subsection \<open>The retry loop of the completion client\<close>

declare chatCompletion_loop.simps [simp del]

lemma backoff_nat: "backoff (int k) = min (1000 * 2 ^ k) 30000"
  by (simp add: backoff_def)

lemma backoff_mono: "min (1000 * 2 ^ k) (30000::int) \<le> min (1000 * 2 ^ Suc k) 30000"
  by (simp add: min_def)

lemma attempt_body_retryable:
  "retryable_no_header out \<Longrightarrow> attempt < maxRetries \<Longrightarrow>
   attempt_body out maxRetries attempt le = Continue le [Sleep (Some (backoff attempt))]"
  by (auto simp: retryable_no_header_def attempt_body_def split: fetch_outcome.splits)

lemma loop_retryable_step:
  assumes "retryable_no_header (srv (sent st) b)" "attempt < maxRetries"
  shows "chatCompletion_loop url hs srv b maxRetries attempt le st =
         chatCompletion_loop url hs srv b maxRetries (attempt + 1) le
           (st\<lparr>sent := sent st + 1,
               trace := trace st @ [Fetch url hs b, Sleep (Some (backoff attempt))]\<rparr>)"
  using assms
  by (subst chatCompletion_loop.simps) (simp add: attempt_body_retryable)

lemma loop_retryable_run:
  "(\<forall>k<n. retryable_no_header (srv (sent st + k) b)) \<Longrightarrow> attempt + int n \<le> maxRetries \<Longrightarrow>
   chatCompletion_loop url hs srv b maxRetries attempt le st =
   chatCompletion_loop url hs srv b maxRetries (attempt + int n) le
     (st\<lparr>sent := sent st + n,
         trace := trace st @
           concat (map (\<lambda>k. [Fetch url hs b, Sleep (Some (backoff (attempt + int k)))]) [0..<n])\<rparr>)"
proof (induction n arbitrary: st attempt)
  case 0
  show ?case by simp
next
  case (Suc n)
  let ?st1 = "st\<lparr>sent := sent st + 1,
               trace := trace st @ [Fetch url hs b, Sleep (Some (backoff attempt))]\<rparr>"
  have r0: "retryable_no_header (srv (sent st) b)"
    using Suc.prems(1) by (metis add.right_neutral zero_less_Suc)
  have lt: "attempt < maxRetries" using Suc.prems(2) by simp
  have rest: "\<forall>k<n. retryable_no_header (srv (sent ?st1 + k) b)"
    using Suc.prems(1) by (auto simp: less_Suc_eq_0_disj)
  have le': "(attempt + 1) + int n \<le> maxRetries" using Suc.prems(2) by simp
  have shift: "map (\<lambda>k. [Fetch url hs b, Sleep (Some (backoff (attempt + int k)))]) [0..<Suc n]
     = [Fetch url hs b, Sleep (Some (backoff attempt))]
       # map (\<lambda>k. [Fetch url hs b, Sleep (Some (backoff (attempt + 1 + int k)))]) [0..<n]"
    by (simp only: upt_conv_Cons[of 0 "Suc n"] map_Suc_upt[symmetric] list.map map_map comp_def)
       (simp add: add.assoc)
  have "chatCompletion_loop url hs srv b maxRetries attempt le st =
        chatCompletion_loop url hs srv b maxRetries (attempt + 1) le ?st1"
    using r0 lt by (rule loop_retryable_step)
  also have "\<dots> = chatCompletion_loop url hs srv b maxRetries (attempt + 1 + int n) le
     (?st1\<lparr>sent := sent ?st1 + n,
         trace := trace ?st1 @
           concat (map (\<lambda>k. [Fetch url hs b, Sleep (Some (backoff (attempt + 1 + int k)))]) [0..<n])\<rparr>)"
    using rest le' by (rule Suc.IH)
  finally show ?case
    unfolding shift by (simp add: add.assoc)
qed

lemma loop_trace_extends:
  "\<exists>rest. trace (snd (chatCompletion_loop url hs srv b maxRetries attempt le st)) = trace st @ rest"
proof (induction url hs srv b maxRetries attempt le st rule: chatCompletion_loop.induct)
  case (1 url hs srv b maxRetries attempt le st)
  show ?case
  proof (cases "attempt \<le> maxRetries")
    case False
    then show ?thesis by (subst chatCompletion_loop.simps) simp
  next
    case True
    show ?thesis
    proof (cases "attempt_body (srv (sent st) b) maxRetries attempt le")
      case (Return r)
      with True show ?thesis by (subst chatCompletion_loop.simps) simp
    next
      case (Continue le' sl)
      from "1.IH"[OF True Continue] obtain rest where
        "trace (snd (chatCompletion_loop url hs srv b maxRetries (attempt + 1) le'
           (st\<lparr>sent := sent st + 1, trace := trace st @ [Fetch url hs b] @ sl\<rparr>)))
         = trace (st\<lparr>sent := sent st + 1, trace := trace st @ [Fetch url hs b] @ sl\<rparr>) @ rest"
        by blast
      with True Continue show ?thesis by (subst chatCompletion_loop.simps) simp
    qed
  qed
qed

lemma loop_fetch_first:
  assumes "attempt \<le> maxRetries"
  shows "\<exists>rest. trace (snd (chatCompletion_loop url hs srv b maxRetries attempt le st))
          = trace st @ Fetch url hs b # rest"
proof (cases "attempt_body (srv (sent st) b) maxRetries attempt le")
  case (Return r)
  with assms show ?thesis by (subst chatCompletion_loop.simps) simp
next
  case (Continue le' sl)
  obtain rest where
    "trace (snd (chatCompletion_loop url hs srv b maxRetries (attempt + 1) le'
       (st\<lparr>sent := sent st + 1, trace := trace st @ [Fetch url hs b] @ sl\<rparr>)))
     = trace (st\<lparr>sent := sent st + 1, trace := trace st @ [Fetch url hs b] @ sl\<rparr>) @ rest"
    using loop_trace_extends by blast
  with assms Continue show ?thesis by (subst chatCompletion_loop.simps) simp
qed

lemma length_concat_pairs: "length (concat (map (\<lambda>k. [f k, g k]) xs)) = 2 * length xs"
  by (induction xs) auto

lemma map_shift_one: "map (\<lambda>j. h (j - 1)) [1..<Suc n] = map h [0..<n]"
  by (induction n) auto

text \<open>
  Claim C9. In \<^verbatim>\<open>chatCompletion\<close>, when the first \<open>n\<close> responses are 429 or 5xx
  without a retry-after header and \<open>n\<close> retries are allowed, the effects of the call begin
  with a request, then for \<open>j = 1, \<dots>, n\<close> a sleep of \<open>min(1000\<cdot>2^(j-1), 30000)\<close>
  milliseconds followed by the j-th retry; and this delay is non-decreasing in \<open>j\<close>.
\<close>

theorem backoff_schedule:
  assumes "\<forall>k<n. retryable_no_header
             (srv (sent st + k) (build_body p heap request (useStructuredOutput_of options)))"
      and "int n \<le> maxRetries_of options"
  shows "take (2 * n + 1)
           (drop (length (trace st))
              (trace (snd (chatCompletion p srv heap request options st))))
         = concat (map (\<lambda>j. [Fetch (buildURL p) (buildHeaders p)
                                 (build_body p heap request (useStructuredOutput_of options)),
                               Sleep (Some (min (1000 * 2 ^ (j - 1)) 30000))])
                     [1..<Suc n])
           @ [Fetch (buildURL p) (buildHeaders p)
                (build_body p heap request (useStructuredOutput_of options))]
         \<and> (\<forall>j. min (1000 * 2 ^ (j - 1)) (30000::int) \<le> min (1000 * 2 ^ j) 30000)"
proof
  let ?b = "build_body p heap request (useStructuredOutput_of options)"
  let ?u = "buildURL p" and ?h = "buildHeaders p"
  let ?pre = "concat (map (\<lambda>k. [Fetch ?u ?h ?b, Sleep (Some (backoff (int k)))]) [0..<n])"
  let ?st' = "st\<lparr>sent := sent st + n, trace := trace st @ ?pre\<rparr>"
  have run: "chatCompletion_loop ?u ?h srv ?b (maxRetries_of options) 0 None st
           = chatCompletion_loop ?u ?h srv ?b (maxRetries_of options) (int n) None ?st'"
    using loop_retryable_run[of n srv st ?b 0 "maxRetries_of options" ?u ?h None] assms by simp
  have "\<exists>rest. trace (snd (chatCompletion_loop ?u ?h srv ?b (maxRetries_of options) (int n) None ?st'))
       = trace ?st' @ Fetch ?u ?h ?b # rest"
    using assms(2) by (rule loop_fetch_first)
  then obtain rest where
    "trace (snd (chatCompletion_loop ?u ?h srv ?b (maxRetries_of options) (int n) None ?st'))
       = trace ?st' @ Fetch ?u ?h ?b # rest"
    by blast
  then have tr: "trace (snd (chatCompletion p srv heap request options st))
       = trace st @ ?pre @ Fetch ?u ?h ?b # rest"
    by (simp add: chatCompletion_def run)
  have len: "length ?pre = 2 * n"
    by (simp add: length_concat_pairs)
  have pre: "?pre = concat (map (\<lambda>j. [Fetch ?u ?h ?b, Sleep (Some (min (1000 * 2 ^ (j - 1)) 30000))])
                     [1..<Suc n])"
    by (simp only: map_shift_one[of "\<lambda>k. [Fetch ?u ?h ?b, Sleep (Some (min (1000 * 2 ^ k) 30000))]"]
          backoff_nat)
  show "take (2 * n + 1)
           (drop (length (trace st))
              (trace (snd (chatCompletion p srv heap request options st))))
         = concat (map (\<lambda>j. [Fetch ?u ?h ?b, Sleep (Some (min (1000 * 2 ^ (j - 1)) 30000))])
                     [1..<Suc n])
           @ [Fetch ?u ?h ?b]"
    unfolding tr pre[symmetric] using len by simp
next
  show "\<forall>j. min (1000 * 2 ^ (j - 1)) (30000::int) \<le> min (1000 * 2 ^ j) 30000"
  proof
    fix j :: nat
    show "min (1000 * 2 ^ (j - 1)) (30000::int) \<le> min (1000 * 2 ^ j) 30000"
      by (cases j) (simp_all add: min_def)
  qed
qed

lemma attempt_body_client_error:
  assumes "400 \<le> status r" "status r \<le> 499" "status r \<noteq> 429"
  shows "attempt_body (Response r) maxRetries attempt le
         = on_catch maxRetries attempt (errorMessage r)"
  using assms by (simp add: attempt_body_def response_ok_def)

text \<open>
  Claim C2, as amended. A response with a 4xx status other than 429 makes
  \<^verbatim>\<open>chatCompletion\<close> build the error \<open>HTTP status: statusText - message\<close>, which the
  \<^verbatim>\<open>catch\<close> of the retry loop handles like any other failure of the attempt: before the
  last attempt the call sleeps \<open>min(1000\<cdot>2^attempt, 30000)\<close> milliseconds and goes on with
  the next attempt, the error kept as the last error; only at the last attempt
  (\<open>attempt = maxRetries\<close>) the error is raised with no further request and no sleep.
\<close>

theorem client_error_retried_until_last_attempt:
  assumes "srv (sent st) b = Response r"
      and "400 \<le> status r" "status r \<le> 499" "status r \<noteq> 429"
      and "attempt \<le> maxRetries"
  shows "chatCompletion_loop url hs srv b maxRetries attempt le st =
           (if attempt < maxRetries
            then chatCompletion_loop url hs srv b maxRetries (attempt + 1) (Some (errorMessage r))
                   (st\<lparr>sent := sent st + 1,
                       trace := trace st @ [Fetch url hs b, Sleep (Some (backoff attempt))]\<rparr>)
            else (Inl (errorMessage r),
                  st\<lparr>sent := sent st + 1, trace := trace st @ [Fetch url hs b]\<rparr>))"
proof (cases "attempt < maxRetries")
  case True
  with assms show ?thesis
    by (subst chatCompletion_loop.simps) (simp add: attempt_body_client_error on_catch_def)
next
  case False
  with assms(5) have eq: "attempt = maxRetries" by simp
  have stop: "chatCompletion_loop url hs srv b maxRetries (maxRetries + 1) (Some (errorMessage r)) st'
              = (Inl (errorMessage r), st')" for st'
    by (subst chatCompletion_loop.simps) simp
  show ?thesis
    using assms(1-4) unfolding eq
    by (subst chatCompletion_loop.simps) (simp add: attempt_body_client_error on_catch_def stop)
qed

theorem backoff_schedule_witness:
  "retryable_no_header (srv_busy 0 (build_body ex_prefs ex_heap ex_request True))
   \<and> retryable_no_header (srv_busy 1 (build_body ex_prefs ex_heap ex_request True))
   \<and> retryable_no_header (srv_busy 2 (build_body ex_prefs ex_heap ex_request True))
   \<and> 3 \<le> maxRetries_of default_options
   \<and> take 7 (trace (snd (chatCompletion ex_prefs srv_busy ex_heap ex_request default_options fresh_net)))
       = [Fetch (buildURL ex_prefs) (buildHeaders ex_prefs) (build_body ex_prefs ex_heap ex_request True),
          Sleep (Some 1000),
          Fetch (buildURL ex_prefs) (buildHeaders ex_prefs) (build_body ex_prefs ex_heap ex_request True),
          Sleep (Some 2000),
          Fetch (buildURL ex_prefs) (buildHeaders ex_prefs) (build_body ex_prefs ex_heap ex_request True),
          Sleep (Some 4000),
          Fetch (buildURL ex_prefs) (buildHeaders ex_prefs) (build_body ex_prefs ex_heap ex_request True)]"
proof -
  have u: "useStructuredOutput_of default_options = True"
    by (simp add: useStructuredOutput_of_def default_options_def)
  have m: "int 3 \<le> maxRetries_of default_options"
    by (simp add: maxRetries_of_def default_options_def)
  have r: "retryable_no_header (srv_busy k b)" if "k < 3" for k b
    using that by (simp add: retryable_no_header_def srv_busy_def)
  have h: "\<forall>k<3. retryable_no_header
             (srv_busy (sent fresh_net + k)
                (build_body ex_prefs ex_heap ex_request (useStructuredOutput_of default_options)))"
    by (simp add: r fresh_net_def)
  show ?thesis
    using backoff_schedule[where n = 3 and srv = srv_busy and st = fresh_net and p = ex_prefs
            and heap = ex_heap and request = ex_request and options = default_options]
          h m r[of 0] r[of 1] r[of 2]
    by (simp add: u fresh_net_def upt_rec)
qed

theorem client_error_retried_witness:
  "srv_unauthorized 0 (build_body ex_prefs ex_heap ex_request True)
     = Response \<lparr>status = 401, statusText = ''Unauthorized'', retry_after = None,
                 body = BodyJson (Some ''Incorrect API key'') []\<rparr>
   \<and> chatCompletion_loop ''u'' [] srv_unauthorized (build_body ex_prefs ex_heap ex_request True)
        3 0 None fresh_net
     = chatCompletion_loop ''u'' [] srv_unauthorized (build_body ex_prefs ex_heap ex_request True)
        3 1 (Some ''HTTP 401: Unauthorized - Incorrect API key'')
        \<lparr>sent = 1,
          trace = [Fetch ''u'' [] (build_body ex_prefs ex_heap ex_request True), Sleep (Some 1000)]\<rparr>
   \<and> chatCompletion_loop ''u'' [] srv_unauthorized (build_body ex_prefs ex_heap ex_request True)
        3 3 None fresh_net
     = (Inl ''HTTP 401: Unauthorized - Incorrect API key'',
        \<lparr>sent = 1, trace = [Fetch ''u'' [] (build_body ex_prefs ex_heap ex_request True)]\<rparr>)"
proof -
  let ?r = "\<lparr>status = 401, statusText = ''Unauthorized'', retry_after = None,
                 body = BodyJson (Some ''Incorrect API key'') []\<rparr>"
  let ?b = "build_body ex_prefs ex_heap ex_request True"
  have s: "srv_unauthorized (sent fresh_net) ?b = Response ?r"
    by (simp add: srv_unauthorized_def)
  have e: "errorMessage ?r = ''HTTP 401: Unauthorized - Incorrect API key''"
    by code_simp
  show ?thesis
    using client_error_retried_until_last_attempt[where srv = srv_unauthorized and st = fresh_net
            and b = ?b and r = ?r and attempt = 0 and maxRetries = 3 and url = "''u''"
            and hs = "[]" and le = None]
          client_error_retried_until_last_attempt[where srv = srv_unauthorized and st = fresh_net
            and b = ?b and r = ?r and attempt = 3 and maxRetries = 3 and url = "''u''"
            and hs = "[]" and le = None]
          s
    by (simp add: e fresh_net_def backoff_def srv_unauthorized_def)
qed

text \<open>
  Claim C2 as stated fails: with the default of three retries, a provider that answers 401
  to every request receives four requests, after backoff sleeps of 1000, 2000 and 4000
  milliseconds, before the error is raised.
\<close>

theorem client_error_is_retried:
  "fetches (trace (snd (chatCompletion ex_prefs srv_unauthorized ex_heap ex_request default_options fresh_net))) = 4
   \<and> sleeps (trace (snd (chatCompletion ex_prefs srv_unauthorized ex_heap ex_request default_options fresh_net)))
       = [Some 1000, Some 2000, Some 4000]
   \<and> fst (chatCompletion ex_prefs srv_unauthorized ex_heap ex_request default_options fresh_net)
       = Inl ''HTTP 401: Unauthorized - Incorrect API key''"
  by code_simp

subsection \<open>The structured-output fallback\<close>

lemma json_instruction_nonempty: "json_instruction \<noteq> []"
  by (simp add: json_instruction_def)

lemma map_differs_at_last:
  "xs \<noteq> [] \<Longrightarrow> f (last xs) \<noteq> g (last xs) \<Longrightarrow> map f xs \<noteq> map g xs"
  by (metis last_in_set map_eq_conv)

text \<open>
  Claim C10. For a request whose last message has role \<open>user\<close>: when the structured
  attempt of \<^verbatim>\<open>chatCompletionWithFallback\<close> fails with an error whose message contains
  \<open>response_format\<close>, \<open>json_schema\<close> or \<open>not supported\<close>, the message store after the
  call differs from the store before it exactly at the last message of the request, whose
  content has the JSON instruction appended; so the caller's request, read after the call,
  is not what it was before.
\<close>

theorem fallback_mutates_callers_message:
  assumes "messages request \<noteq> []"
      and "role (heap (last (messages request))) = User"
      and "fst (chatCompletion p srv heap request
                  \<lparr>opt_maxRetries = None, opt_useStructuredOutput = Some True\<rparr> n) = Inl err"
      and "str_includes err ''response_format'' \<or> str_includes err ''json_schema''
           \<or> str_includes err ''not supported''"
  shows "fst (snd (chatCompletionWithFallback p srv heap request n))
           = heap(last (messages request) :=
                    (heap (last (messages request)))
                      \<lparr>content := content (heap (last (messages request))) @ json_instruction\<rparr>)
         \<and> map (fst (snd (chatCompletionWithFallback p srv heap request n))) (messages request)
             \<noteq> map heap (messages request)"
proof -
  let ?a = "last (messages request)"
  let ?heap1 = "heap(?a := (heap ?a)\<lparr>content := content (heap ?a) @ json_instruction\<rparr>)"
  obtain n1 where first: "chatCompletion p srv heap request
        \<lparr>opt_maxRetries = None, opt_useStructuredOutput = Some True\<rparr> n = (Inl err, n1)"
    using assms(3) by (metis fst_conv surj_pair)
  have h: "fst (snd (chatCompletionWithFallback p srv heap request n)) = ?heap1"
    using assms(1,2,4)
    by (simp add: chatCompletionWithFallback_def first Let_def split: prod.splits)
  have "?heap1 ?a \<noteq> heap ?a"
  proof
    assume "?heap1 ?a = heap ?a"
    then have "content (?heap1 ?a) = content (heap ?a)" by simp
    then show False using json_instruction_nonempty by simp
  qed
  then have "map ?heap1 (messages request) \<noteq> map heap (messages request)"
    using assms(1) by (intro map_differs_at_last)
  with h show ?thesis by simp
qed

theorem fallback_mutates_witness:
  "messages ex_request \<noteq> []
   \<and> role (ex_heap (last (messages ex_request))) = User
   \<and> fst (chatCompletion ex_prefs srv_no_schema ex_heap ex_request
             \<lparr>opt_maxRetries = None, opt_useStructuredOutput = Some True\<rparr> fresh_net)
       = Inl ''HTTP 400: Bad Request - response_format is not supported''
   \<and> str_includes ''HTTP 400: Bad Request - response_format is not supported'' ''response_format''
   \<and> content (ex_heap 1) = ''Suggest tags.''
   \<and> content (fst (snd (chatCompletionWithFallback ex_prefs srv_no_schema ex_heap ex_request fresh_net)) 1)
       = ''Suggest tags.'' @ json_instruction
   \<and> map (fst (snd (chatCompletionWithFallback ex_prefs srv_no_schema ex_heap ex_request fresh_net)))
         (messages ex_request)
       \<noteq> map ex_heap (messages ex_request)"
proof -
  have a: "messages ex_request \<noteq> []" by (simp add: ex_request_def)
  have b: "role (ex_heap (last (messages ex_request))) = User"
    by (simp add: ex_request_def ex_heap_def)
  have c: "fst (chatCompletion ex_prefs srv_no_schema ex_heap ex_request
             \<lparr>opt_maxRetries = None, opt_useStructuredOutput = Some True\<rparr> fresh_net)
       = Inl ''HTTP 400: Bad Request - response_format is not supported''"
    by code_simp
  have d: "str_includes ''HTTP 400: Bad Request - response_format is not supported'' ''response_format''"
    by code_simp
  have e: "content (ex_heap 1) = ''Suggest tags.''" by (simp add: ex_heap_def)
  have concl:
    "fst (snd (chatCompletionWithFallback ex_prefs srv_no_schema ex_heap ex_request fresh_net))
       = ex_heap(last (messages ex_request) :=
                   (ex_heap (last (messages ex_request)))
                     \<lparr>content := content (ex_heap (last (messages ex_request))) @ json_instruction\<rparr>)
     \<and> map (fst (snd (chatCompletionWithFallback ex_prefs srv_no_schema ex_heap ex_request fresh_net)))
           (messages ex_request)
         \<noteq> map ex_heap (messages ex_request)"
    using a b c disjI1[OF d]
    by (rule fallback_mutates_callers_message[where request = ex_request and heap = ex_heap
            and p = ex_prefs and srv = srv_no_schema and n = fresh_net
            and err = "''HTTP 400: Bad Request - response_format is not supported''"])
  have l: "last (messages ex_request) = 1" by (simp add: ex_request_def)
  have f: "content (fst (snd (chatCompletionWithFallback ex_prefs srv_no_schema ex_heap ex_request fresh_net)) 1)
       = ''Suggest tags.'' @ json_instruction"
    unfolding conjunct1[OF concl] l by (simp add: ex_heap_def)
  from a b c d e f conjunct2[OF concl] show ?thesis by blast
qed

subsection \<open>Suggestions in existing-only mode\<close>

text \<open>
  Claim C3 at a failing input. In existing-only mode, with the vocabulary
  \<open>[biology, chemistry, physics]\<close>, a provider that rejects the structured-output schema and
  answers the prompt-based fallback request with the tags \<open>[astrology, physics]\<close> makes
  \<^verbatim>\<open>suggestTags\<close> return a record without error whose suggested tags are
  \<open>[astrology]\<close>, a tag that is not in the vocabulary.
\<close>

theorem existing_only_fallback_returns_unlisted_tag:
  "tagSource ex_prefs = ''existing''
   \<and> getAvailableTags ex_prefs ex_host (item_libraryID ex_item) = [''biology'', ''chemistry'', ''physics'']
   \<and> ''astrology'' \<notin> set (getAvailableTags ex_prefs ex_host (item_libraryID ex_item))
   \<and> fst (suggestTags ex_prefs ex_host srv_no_schema ex_item fresh_net)
       = \<lparr>itemID = 7, title = ''Quantum Effects in X'', suggestedTags = [''astrology''],
          appliedTags = [], reasoning = ''stars'', error = None\<rparr>"
  by code_simp

subsection \<open>Applying tags\<close>

lemma host_Items_update_same: "Items h i = Some x \<Longrightarrow> h\<lparr>Items := (Items h)(i := Some x)\<rparr> = h"
  by (metis fun_upd_triv host.update_convs(1) host.surjective)

lemma foldl_addTag_keeps:
  assumes "\<And>t it. set (item_tags it) \<subseteq> set (item_tags (addTag t it))"
  shows "set (item_tags item) \<subseteq> set (item_tags (foldl (\<lambda>it tag. addTag tag it) item tags))"
proof (induction tags arbitrary: item)
  case Nil
  show ?case by simp
next
  case (Cons t tags)
  have "set (item_tags item) \<subseteq> set (item_tags (addTag t item))" by (rule assms)
  also have "\<dots> \<subseteq> set (item_tags (foldl (\<lambda>it tag. addTag tag it) (addTag t item) tags))"
    by (rule Cons.IH)
  finally show ?case by simp
qed

lemma foldl_addTag_adds:
  assumes "\<And>t it. t \<in> set (item_tags (addTag t it))"
      and "\<And>t it. set (item_tags it) \<subseteq> set (item_tags (addTag t it))"
  shows "set tags \<subseteq> set (item_tags (foldl (\<lambda>it tag. addTag tag it) item tags))"
proof (induction tags arbitrary: item)
  case Nil
  show ?case by simp
next
  case (Cons t tags)
  have "t \<in> set (item_tags (addTag t item))" by (rule assms(1))
  then have "t \<in> set (item_tags (foldl (\<lambda>it tag. addTag tag it) (addTag t item) tags))"
    using foldl_addTag_keeps[of addTag "addTag t item" tags, OF assms(2)] by blast
  with Cons.IH[of "addTag t item"] show ?case by simp
qed

lemma foldl_addTag_present:
  assumes "\<And>t it. t \<in> set (item_tags it) \<Longrightarrow> addTag t it = it"
  shows "set tags \<subseteq> set (item_tags item) \<Longrightarrow> foldl (\<lambda>it tag. addTag tag it) item tags = item"
  by (induction tags arbitrary: item) (simp_all add: assms)

lemma foldl_addTag_twice:
  assumes "\<And>t it. t \<in> set (item_tags it) \<Longrightarrow> addTag t it = it"
      and "\<And>t it. t \<in> set (item_tags (addTag t it))"
      and "\<And>t it. set (item_tags it) \<subseteq> set (item_tags (addTag t it))"
  shows "foldl (\<lambda>it tag. addTag tag it) (foldl (\<lambda>it tag. addTag tag it) item tags) tags
         = foldl (\<lambda>it tag. addTag tag it) item tags"
proof -
  have sub: "set tags \<subseteq> set (item_tags (foldl (\<lambda>it tag. addTag tag it) item tags))"
    using assms(2,3) by (rule foldl_addTag_adds)
  show ?thesis
    using assms(1) sub by (rule foldl_addTag_present)
qed

text \<open>
  Claim C8. For every \<^verbatim>\<open>addTag\<close> of the host that leaves an item with the tag as it
  is, puts the tag on the item, and keeps the tags the item has: \<^verbatim>\<open>applyTags\<close> with an
  empty list makes no save and leaves the store as it is. With a non-empty list on an item
  of the store, \<^verbatim>\<open>addTag\<close> is called for each tag of the list in turn, every tag of the
  list is on the item afterwards and the item is saved once; when the save fails nothing is
  persisted. Applying the same list a second time leaves the items and the persisted tags
  as the first application left them.
\<close>

theorem applyTags_saves_nonempty_and_idempotent:
  assumes "\<And>t it. t \<in> set (item_tags it) \<Longrightarrow> addTag t it = it"
      and "\<And>t it. t \<in> set (item_tags (addTag t it))"
      and "\<And>t it. set (item_tags it) \<subseteq> set (item_tags (addTag t it))"
  shows "applyTags addTag h i [] save_err = (None, h)
   \<and> (Items h i = Some item \<and> tags \<noteq> [] \<longrightarrow>
        applyTags addTag h i tags None
          = (None, h\<lparr>Items := (Items h)(i := Some (foldl (\<lambda>it tag. addTag tag it) item tags)),
                     saved_tags := (saved_tags h)(i := item_tags (foldl (\<lambda>it tag. addTag tag it) item tags)),
                     saves := saves h @ [i]\<rparr>)
        \<and> set tags \<subseteq> set (item_tags (foldl (\<lambda>it tag. addTag tag it) item tags))
        \<and> saved_tags (snd (applyTags addTag h i tags (Some e))) = saved_tags h
        \<and> saves (snd (applyTags addTag h i tags (Some e))) = saves h)
   \<and> Items (snd (applyTags addTag (snd (applyTags addTag h i tags None)) i tags None))
       = Items (snd (applyTags addTag h i tags None))
   \<and> saved_tags (snd (applyTags addTag (snd (applyTags addTag h i tags None)) i tags None))
       = saved_tags (snd (applyTags addTag h i tags None))"
proof (intro conjI impI)
  have twice: "foldl (\<lambda>it tag. addTag tag it) (foldl (\<lambda>it tag. addTag tag it) it0 tags) tags
         = foldl (\<lambda>it tag. addTag tag it) it0 tags" for it0
    using assms by (rule foldl_addTag_twice)
  show "applyTags addTag h i [] save_err = (None, h)"
    by (simp add: applyTags_def host_Items_update_same split: option.splits)
  show "Items (snd (applyTags addTag (snd (applyTags addTag h i tags None)) i tags None))
       = Items (snd (applyTags addTag h i tags None))"
    by (cases "Items h i"; cases "tags = []")
       (simp_all add: applyTags_def saveTx_def Let_def twice)
  show "saved_tags (snd (applyTags addTag (snd (applyTags addTag h i tags None)) i tags None))
       = saved_tags (snd (applyTags addTag h i tags None))"
    by (cases "Items h i"; cases "tags = []")
       (simp_all add: applyTags_def saveTx_def Let_def twice)
  assume a: "Items h i = Some item \<and> tags \<noteq> []"
  then show "applyTags addTag h i tags None
          = (None, h\<lparr>Items := (Items h)(i := Some (foldl (\<lambda>it tag. addTag tag it) item tags)),
                     saved_tags := (saved_tags h)(i := item_tags (foldl (\<lambda>it tag. addTag tag it) item tags)),
                     saves := saves h @ [i]\<rparr>)"
    by (simp add: applyTags_def saveTx_def Let_def)
  show "set tags \<subseteq> set (item_tags (foldl (\<lambda>it tag. addTag tag it) item tags))"
    using assms(2,3) by (rule foldl_addTag_adds)
  from a show "saved_tags (snd (applyTags addTag h i tags (Some e))) = saved_tags h"
    by (simp add: applyTags_def Let_def)
  from a show "saves (snd (applyTags addTag h i tags (Some e))) = saves h"
    by (simp add: applyTags_def Let_def)
qed

theorem applyTags_witness:
  "Items ex_host 7 = Some ex_item \<and> [''biology'', ''physics''] \<noteq> []
   \<and> fst (applyTags list_addTag ex_host 7 [''biology'', ''physics''] None) = None
   \<and> map_option item_tags
        (Items (snd (applyTags list_addTag ex_host 7 [''biology'', ''physics''] None)) 7)
       = Some [''physics'', ''biology'']
   \<and> saved_tags (snd (applyTags list_addTag ex_host 7 [''biology'', ''physics''] None)) 7
       = [''physics'', ''biology'']
   \<and> saves (snd (applyTags list_addTag ex_host 7 [''biology'', ''physics''] None)) = [7]
   \<and> saved_tags (snd (applyTags list_addTag ex_host 7 [''biology'', ''physics'']
                         (Some ''read-only library''))) 7
       = [''physics'']"
proof -
  have a: "Items ex_host 7 = Some ex_item" by (simp add: ex_host_def)
  have f: "item_tags (list_addTag ''physics'' (list_addTag ''biology'' ex_item))
           = [''physics'', ''biology'']"
    by (simp add: list_addTag_def ex_item_def)
  have s: "saved_tags ex_host 7 = [''physics'']" "saves ex_host = []"
    by (simp_all add: ex_host_def)
  have h1: "\<And>t it. t \<in> set (item_tags it) \<Longrightarrow> list_addTag t it = it"
    by (simp add: list_addTag_def)
  have h2: "\<And>t it. t \<in> set (item_tags (list_addTag t it))"
    by (simp add: list_addTag_def)
  have h3: "\<And>t it. set (item_tags it) \<subseteq> set (item_tags (list_addTag t it))"
    by (auto simp: list_addTag_def)
  show ?thesis
    using applyTags_saves_nonempty_and_idempotent[where addTag = list_addTag and h = ex_host
            and i = 7 and item = ex_item and tags = "[''biology'', ''physics'']"
            and e = "''read-only library''", OF h1 h2 h3] a
    by (simp add: f s)
qed

subsection \<open>The invariants of the scheduler\<close>

lemma count_update:
  "i < length xs \<Longrightarrow>
   length (filter P (xs[i := v])) + (if P (xs ! i) then 1 else 0)
   = length (filter P xs) + (if P v then 1 else 0)"
proof (induction xs arbitrary: i)
  case Nil
  then show ?case by simp
next
  case (Cons x xs)
  show ?case
  proof (cases i)
    case 0
    then show ?thesis by simp
  next
    case (Suc j)
    with Cons.prems have "j < length xs" by simp
    from Cons.IH[OF this] Suc show ?thesis by simp
  qed
qed

lemma count_update_same:
  "i < length xs \<Longrightarrow> P (xs ! i) = P v \<Longrightarrow> length (filter P (xs[i := v])) = length (filter P xs)"
  using count_update[of i xs P v] by (simp split: if_splits)

lemma count_update_gain:
  "i < length xs \<Longrightarrow> \<not> P (xs ! i) \<Longrightarrow> P v \<Longrightarrow>
   length (filter P (xs[i := v])) = Suc (length (filter P xs))"
  using count_update[of i xs P v] by simp

lemma count_update_loss:
  "i < length xs \<Longrightarrow> P (xs ! i) \<Longrightarrow> \<not> P v \<Longrightarrow>
   Suc (length (filter P (xs[i := v]))) = length (filter P xs)"
  using count_update[of i xs P v] by simp

text \<open>The fields of the state after the finally block.\<close>

lemma finally_block_tasks:
  "tasks (finally_block i out s)
   = (case queue (sem s) of [] \<Rightarrow> tasks s | j # rest \<Rightarrow> (tasks s)[j := Acquired])
       [i := settled_outcome s out]"
  by (simp add: finally_block_def release_def Let_def split: list.splits)

lemma finally_block_sem:
  "queue (sem (finally_block i out s)) = tl (queue (sem s))"
  "limit (sem (finally_block i out s)) = limit (sem s)"
  "active (sem (finally_block i out s))
   = (if queue (sem s) = [] then active (sem s) - 1 else active (sem s))"
  by (simp_all add: finally_block_def release_def Let_def split: list.splits)

lemma finally_block_admitted:
  "admitted (finally_block i out s) = admitted s @ take 1 (queue (sem s))"
  by (simp add: finally_block_def release_def Let_def split: list.splits)

lemma finally_block_progress:
  "progress (finally_block i out s) = (progress s)\<lparr>current := current (progress s) + 1\<rparr>"
  "emitted (finally_block i out s) = emitted s @ [(progress s)\<lparr>current := current (progress s) + 1\<rparr>]"
  "arrays (finally_block i out s) = arrays s"
  "cancelled_var (finally_block i out s) = cancelled_var s"
  "requestCount (finally_block i out s) = requestCount s"
  "interval (finally_block i out s) = interval s"
  "has_confirmFn (finally_block i out s) = has_confirmFn s"
  "onProgress (finally_block i out s) = onProgress s"
  by (simp_all add: finally_block_def release_def Let_def split: list.splits)

lemma finally_block_promise:
  "promise (finally_block i out s)
   = settle (tasks (finally_block i out s)) (settled_outcome s out) (promise s)"
  by (simp add: finally_block_def release_def Let_def split: list.splits)

lemma finally_block_sem_eq:
  "sem (finally_block i out s)
   = (case queue (sem s) of
        [] \<Rightarrow> (sem s)\<lparr>active := active (sem s) - 1\<rparr>
      | j # rest \<Rightarrow> (sem s)\<lparr>active := active (sem s) - 1, queue := rest,
                           active := active (sem s) - 1 + 1\<rparr>)"
  by (simp add: finally_block_def release_def Let_def split: list.splits)

lemmas finally_block_fields =
  finally_block_tasks finally_block_sem finally_block_admitted finally_block_progress
  finally_block_promise

lemma push_result_fields:
  "tasks (push_result r s) = tasks s" "sem (push_result r s) = sem s"
  "admitted (push_result r s) = admitted s" "progress (push_result r s) = progress s"
  "emitted (push_result r s) = emitted s" "promise (push_result r s) = promise s"
  "cancelled_var (push_result r s) = cancelled_var s"
  "requestCount (push_result r s) = requestCount s"
  "interval (push_result r s) = interval s"
  "has_confirmFn (push_result r s) = has_confirmFn s"
  "onProgress (push_result r s) = onProgress s"
  "arrays (push_result r s) (results (progress s)) = arrays s (results (progress s)) @ [r]"
  by (simp_all add: push_result_def)

lemma settled_outcome_finished: "finished out \<Longrightarrow> finished (settled_outcome s out)"
  by (simp add: settled_outcome_def finished_def split: option.splits)

lemma settled_outcome_cong:
  "onProgress s' = onProgress s \<Longrightarrow> progress s' = progress s \<Longrightarrow>
   settled_outcome s' out = settled_outcome s out"
  by (simp add: settled_outcome_def)



text \<open>The structural invariant.\<close>

lemma struct_inv_queue_head:
  assumes "struct_inv n s" "queue (sem s) = j # rest"
  shows "j < n" "tasks s ! j = Queued" "j \<notin> set rest" "j \<notin> set (admitted s)"
proof -
  from assms have eq: "admitted s @ j # rest = [0..<n]" by (simp add: struct_inv_def)
  then have "j \<in> set [0..<n]" by (metis in_set_conv_decomp)
  then show jn: "j < n" by simp
  with assms show "tasks s ! j = Queued" by (simp add: struct_inv_def)
  have "distinct (admitted s @ j # rest)" unfolding eq by simp
  then show "j \<notin> set rest" "j \<notin> set (admitted s)" by auto
qed

lemma struct_inv_move:
  assumes "struct_inv n s" "i < n" "holding (tasks s ! i)" "holding c"
  shows "struct_inv n (s\<lparr>tasks := (tasks s)[i := c]\<rparr>)"
proof -
  from assms(1) have len: "length (tasks s) = n" by (simp add: struct_inv_def)
  have cnt: "length (filter holding ((tasks s)[i := c])) = length (filter holding (tasks s))"
    using assms len by (intro count_update_same) auto
  have nq: "tasks s ! i \<noteq> Queued" "c \<noteq> Queued" "c \<noteq> NotStarted"
    using assms(3,4) by (auto simp: holding_def)
  have q: "\<forall>k<n. (((tasks s)[i := c]) ! k = Queued) = (k \<in> set (queue (sem s)))"
    using assms(1,2) len nq by (auto simp: struct_inv_def nth_list_update)
  have ns: "NotStarted \<notin> set ((tasks s)[i := c])"
    using assms(1) nq(3) by (auto simp: struct_inv_def dest!: set_update_subset_insert[THEN subsetD])
  show ?thesis
    using assms(1) cnt q ns by (simp add: struct_inv_def)
qed

lemma struct_inv_finally:
  assumes "struct_inv n s" "i < n" "holding (tasks s ! i)" "finished out"
  shows "struct_inv n (finally_block i out s)"
proof -
  let ?o = "settled_outcome s out"
  from assms(1) have len: "length (tasks s) = n" by (simp add: struct_inv_def)
  have out: "\<not> holding ?o" "?o \<noteq> Queued" "?o \<noteq> NotStarted"
    using settled_outcome_finished[OF assms(4), of s]
    by (auto simp: finished_def holding_def split: pc.splits)
  have iq: "i \<notin> set (queue (sem s))"
    using assms(1,2,3) by (auto simp: struct_inv_def holding_def)
  show ?thesis
  proof (cases "queue (sem s)")
    case Nil
    have cnt: "Suc (length (filter holding ((tasks s)[i := ?o]))) = length (filter holding (tasks s))"
      using assms len out by (intro count_update_loss) auto
    have ns: "NotStarted \<notin> set ((tasks s)[i := ?o])"
      using assms(1) out(3) by (auto simp: struct_inv_def dest!: set_update_subset_insert[THEN subsetD])
    have q: "\<forall>k<n. ((tasks s)[i := ?o]) ! k \<noteq> Queued"
      using assms(1,2) len out Nil by (auto simp: struct_inv_def nth_list_update)
    show ?thesis
      using assms(1) Nil cnt ns q len
      by (simp add: struct_inv_def finally_block_fields)
  next
    case (Cons j rest)
    note h = struct_inv_queue_head[OF assms(1) Cons]
    have ji: "j \<noteq> i" using h(2) assms(3) by (auto simp: holding_def)
    let ?t1 = "(tasks s)[j := Acquired]"
    have c1: "length (filter holding ?t1) = Suc (length (filter holding (tasks s)))"
      using h len by (intro count_update_gain) (auto simp: holding_def)
    have c2: "Suc (length (filter holding (?t1[i := ?o]))) = length (filter holding ?t1)"
      using assms len out ji by (intro count_update_loss) auto
    have ns: "NotStarted \<notin> set (?t1[i := ?o])"
      using assms(1) out(3)
      by (auto simp: struct_inv_def dest!: set_update_subset_insert[THEN subsetD])
    have q: "\<forall>k<n. ((?t1[i := ?o]) ! k = Queued) = (k \<in> set rest)"
      using assms(1,2) len out h ji iq Cons
      by (auto simp: struct_inv_def nth_list_update)
    show ?thesis
      using assms(1) Cons c1 c2 ns q len
      by (simp add: struct_inv_def finally_block_fields)
  qed
qed

text \<open>The bookkeeping invariant.\<close>

lemma book_inv_move:
  assumes "book_inv n s" "i < length (tasks s)" "holding (tasks s ! i)" "holding c"
  shows "book_inv n (s\<lparr>tasks := (tasks s)[i := c]\<rparr>)"
proof -
  have f: "length (filter finished ((tasks s)[i := c])) = length (filter finished (tasks s))"
    using assms by (intro count_update_same) (auto simp: holding_def finished_def split: pc.splits)
  show ?thesis using assms(1) f by (simp add: book_inv_def)
qed

lemma woken_counts:
  assumes "struct_inv n s" "queue (sem s) = j # rest"
  shows "length (filter finished ((tasks s)[j := Acquired])) = length (filter finished (tasks s))"
    and "list_all fulfilled ((tasks s)[j := Acquired]) = False"
    and "list_ex is_threw ((tasks s)[j := Acquired]) = list_ex is_threw (tasks s)"
proof -
  note h = struct_inv_queue_head[OF assms]
  from assms(1) have len: "length (tasks s) = n" by (simp add: struct_inv_def)
  show "length (filter finished ((tasks s)[j := Acquired])) = length (filter finished (tasks s))"
    using h len by (intro count_update_same) (auto simp: finished_def)
  have "(tasks s)[j := Acquired] ! j = Acquired" using h len by simp
  then have "Acquired \<in> set ((tasks s)[j := Acquired])"
    using h len by (metis length_list_update nth_mem)
  moreover have "\<not> fulfilled Acquired" by (simp add: fulfilled_def)
  ultimately show "list_all fulfilled ((tasks s)[j := Acquired]) = False"
    unfolding list_all_iff by blast
  have "length (filter is_threw ((tasks s)[j := Acquired])) = length (filter is_threw (tasks s))"
    using h len by (intro count_update_same) (auto simp: is_threw_def)
  then show "list_ex is_threw ((tasks s)[j := Acquired]) = list_ex is_threw (tasks s)"
    by (metis filter_empty_conv length_0_conv list_ex_iff)
qed

lemma book_inv_finally:
  assumes "struct_inv n s" "book_inv n s" "i < n" "holding (tasks s ! i)" "finished out"
      and "tasks s' = tasks s" "sem s' = sem s" "progress s' = progress s" "emitted s' = emitted s"
  shows "book_inv n (finally_block i out s')"
proof -
  let ?o = "settled_outcome s' out"
  have fo: "finished ?o" using assms(5) by (rule settled_outcome_finished)
  from assms(1) have len: "length (tasks s) = n" by (simp add: struct_inv_def)
  have nf: "\<not> finished (tasks s ! i)"
    using assms(4) by (auto simp: holding_def finished_def split: pc.splits)
  let ?t1 = "case queue (sem s) of [] \<Rightarrow> tasks s | j # rest \<Rightarrow> (tasks s)[j := Acquired]"
  have t1: "length ?t1 = n \<and> (?t1 ! i = tasks s ! i \<or> ?t1 ! i = Acquired)
       \<and> length (filter finished ?t1) = length (filter finished (tasks s))"
  proof (cases "queue (sem s)")
    case Nil
    then show ?thesis using len by simp
  next
    case (Cons j rest)
    have "j < length (tasks s)" using struct_inv_queue_head(1)[OF assms(1) Cons] len by simp
    then have "(tasks s)[j := Acquired] ! i = tasks s ! i \<or> (tasks s)[j := Acquired] ! i = Acquired"
      using assms(3) len by (cases "i = j") simp_all
    then show ?thesis
      using Cons len woken_counts(1)[OF assms(1) Cons] by simp
  qed
  have nf1: "\<not> finished (?t1 ! i)"
    using t1 nf by (auto simp: finished_def)
  have f: "length (filter finished (?t1[i := ?o])) = Suc (length (filter finished (tasks s)))"
    using count_update_gain[of i ?t1 finished ?o] t1 nf1 assms(3) fo by simp
  have e: "\<forall>k<Suc (length (emitted s)).
            current ((emitted s @ [(progress s)\<lparr>current := current (progress s) + 1\<rparr>]) ! k) = Suc k
            \<and> total_p ((emitted s @ [(progress s)\<lparr>current := current (progress s) + 1\<rparr>]) ! k) = n
            \<and> results ((emitted s @ [(progress s)\<lparr>current := current (progress s) + 1\<rparr>]) ! k)
                = results (progress s)"
    using assms(2) by (auto simp: book_inv_def nth_append less_Suc_eq)
  have tk: "tasks (finally_block i out s') = ?t1[i := ?o]"
    unfolding finally_block_tasks assms(6) assms(7) ..
  show ?thesis
    unfolding book_inv_def tk
    using assms(2,8,9) f e
    by (simp add: book_inv_def finally_block_progress)
qed

text \<open>The invariant of the batch promise.\<close>

lemma promise_inv_move:
  assumes "promise_inv s" "i < length (tasks s)" "holding (tasks s ! i)" "holding c"
  shows "promise_inv (s\<lparr>tasks := (tasks s)[i := c]\<rparr>)"
proof -
  have nf: "\<not> fulfilled (tasks s ! i)"
    using assms(3) by (auto simp: holding_def fulfilled_def split: pc.splits)
  then have a0: "\<not> list_all fulfilled (tasks s)"
    using assms(2) by (auto simp: list_all_length)
  have "(tasks s)[i := c] ! i = c" using assms(2) by simp
  then have "c \<in> set ((tasks s)[i := c])"
    using assms(2) by (metis length_list_update nth_mem)
  then have a1: "\<not> list_all fulfilled ((tasks s)[i := c])"
    using assms(4) by (auto simp: list_all_iff holding_def fulfilled_def split: pc.splits)
  have "length (filter is_threw ((tasks s)[i := c])) = length (filter is_threw (tasks s))"
    using assms by (intro count_update_same) (auto simp: holding_def is_threw_def split: pc.splits)
  then have t: "list_ex is_threw ((tasks s)[i := c]) = list_ex is_threw (tasks s)"
    by (metis filter_empty_conv length_0_conv list_ex_iff)
  show ?thesis using assms(1) a0 a1 t by (simp add: promise_inv_def)
qed

lemma list_ex_count: "list_ex P xs = (0 < length (filter P xs))"
  by (induction xs) auto

lemma promise_inv_finally:
  assumes "struct_inv n s" "promise_inv s" "i < n" "holding (tasks s ! i)" "finished out"
      and "tasks s' = tasks s" "sem s' = sem s" "promise s' = promise s"
  shows "promise_inv (finally_block i out s')"
proof -
  let ?o = "settled_outcome s' out"
  have fin: "finished ?o" using assms(5) by (rule settled_outcome_finished)
  from assms(1) have len: "length (tasks s) = n" by (simp add: struct_inv_def)
  let ?t1 = "case queue (sem s) of [] \<Rightarrow> tasks s | j # rest \<Rightarrow> (tasks s)[j := Acquired]"
  have tk: "tasks (finally_block i out s') = ?t1[i := ?o]"
    unfolding finally_block_tasks assms(6) assms(7) ..
  have pr: "promise (finally_block i out s') = settle (?t1[i := ?o]) ?o (promise s)"
    unfolding finally_block_promise tk assms(8) ..
  have t1: "length ?t1 = n \<and> \<not> is_threw (?t1 ! i)
       \<and> length (filter is_threw ?t1) = length (filter is_threw (tasks s))
       \<and> (queue (sem s) \<noteq> [] \<longrightarrow> (\<exists>j<n. j \<noteq> i \<and> ?t1 ! j = Acquired))"
  proof (cases "queue (sem s)")
    case Nil
    then show ?thesis using len assms(4) by (auto simp: holding_def is_threw_def split: pc.splits)
  next
    case (Cons j rest)
    note h = struct_inv_queue_head[OF assms(1) Cons]
    have ji: "j \<noteq> i" using h(2) assms(4) by (auto simp: holding_def)
    have "length (filter is_threw ((tasks s)[j := Acquired])) = length (filter is_threw (tasks s))"
      using h len by (intro count_update_same) (auto simp: is_threw_def)
    moreover have "\<not> is_threw ((tasks s)[j := Acquired] ! i)"
      using ji assms(3,4) len by (auto simp: holding_def is_threw_def split: pc.splits)
    moreover have "(tasks s)[j := Acquired] ! j = Acquired" using h len by simp
    ultimately show ?thesis using Cons len h(1) ji by auto
  qed
  have thr: "length (filter is_threw (?t1[i := ?o]))
             = length (filter is_threw (tasks s)) + (if is_threw ?o then 1 else 0)"
    using count_update[of i ?t1 is_threw ?o] t1 assms(3) by simp
  have ex: "list_ex is_threw (?t1[i := ?o]) = (list_ex is_threw (tasks s) \<or> is_threw ?o)"
    unfolding list_ex_count thr by simp
  have all: "list_all fulfilled (?t1[i := ?o])
             = (fulfilled ?o \<and> queue (sem s) = [] \<and> list_all fulfilled ((tasks s)[i := ?o]))"
  proof (cases "queue (sem s)")
    case Nil
    have "?o \<in> set ((tasks s)[i := ?o])"
      using assms(3) len by (metis length_list_update nth_list_update_eq nth_mem)
    then show ?thesis using Nil by (auto simp: list_all_iff)
  next
    case (Cons j rest)
    from t1 Cons obtain j' where j': "j' < n" "j' \<noteq> i" "?t1 ! j' = Acquired" by auto
    then have "(?t1[i := ?o]) ! j' = Acquired" by simp
    then have "Acquired \<in> set (?t1[i := ?o])"
      using j'(1) t1 by (metis length_list_update nth_mem)
    moreover have "\<not> fulfilled Acquired" by (simp add: fulfilled_def)
    ultimately have "\<not> list_all fulfilled (?t1[i := ?o])"
      unfolding list_all_iff by blast
    then show ?thesis using Cons by simp
  qed
  have nres: "promise s \<noteq> Resolved"
  proof
    assume "promise s = Resolved"
    with assms(2) have "list_all fulfilled (tasks s)" by (simp add: promise_inv_def)
    then have "fulfilled (tasks s ! i)" using assms(3) len by (simp add: list_all_length)
    with assms(4) show False by (auto simp: holding_def fulfilled_def split: pc.splits)
  qed
  have fo: "fulfilled ?o = (\<not> is_threw ?o)"
    using fin by (auto simp: finished_def fulfilled_def is_threw_def split: pc.splits)
  show ?thesis
  proof (cases "promise s")
    case Pending
    with assms(2) have nt: "\<not> list_ex is_threw (tasks s)" by (simp add: promise_inv_def)
    show ?thesis
    proof (cases "is_threw ?o")
      case True
      then obtain e where "?o = Threw e" by (auto simp: is_threw_def split: pc.splits)
      then show ?thesis
        using Pending True fo
        unfolding promise_inv_def pr tk ex all by (simp add: settle_def)
    next
      case False
      then have "settle (?t1[i := ?o]) ?o Pending
                 = (if list_all fulfilled (?t1[i := ?o]) then Resolved else Pending)"
        by (auto simp: settle_def is_threw_def split: pc.splits)
      then show ?thesis
        using Pending False nt
        unfolding promise_inv_def pr tk ex by simp
    qed
  next
    case Resolved
    with nres show ?thesis by simp
  next
    case (Rejected e)
    with assms(2) have "list_ex is_threw (tasks s)" by (simp add: promise_inv_def)
    moreover have "\<not> list_all fulfilled (?t1[i := ?o])"
    proof
      assume a: "list_all fulfilled (?t1[i := ?o])"
      from \<open>list_ex is_threw (tasks s)\<close> have "list_ex is_threw (?t1[i := ?o])" using ex by simp
      then obtain c where "c \<in> set (?t1[i := ?o])" "is_threw c" by (auto simp: list_ex_iff)
      with a show False by (auto simp: list_all_iff is_threw_def fulfilled_def split: pc.splits)
    qed
    ultimately show ?thesis
      using Rejected unfolding promise_inv_def pr tk ex by (simp add: settle_def)
  qed
qed

text \<open>Every turn of the event loop keeps the invariants.\<close>

lemma sched_inv_move:
  assumes "sched_inv n s" "i < length (tasks s)" "holding (tasks s ! i)" "holding c"
  shows "sched_inv n (s\<lparr>tasks := (tasks s)[i := c]\<rparr>)"
proof -
  from assms(1) have "length (tasks s) = n" by (simp add: sched_inv_def struct_inv_def)
  with assms show ?thesis
    by (simp add: sched_inv_def struct_inv_move book_inv_move promise_inv_move)
qed

lemma sched_inv_finally:
  assumes "sched_inv n s" "i < length (tasks s)" "holding (tasks s ! i)" "finished out"
      and "tasks s' = tasks s" "sem s' = sem s" "progress s' = progress s"
          "emitted s' = emitted s" "promise s' = promise s" "admitted s' = admitted s"
  shows "sched_inv n (finally_block i out s')"
proof -
  from assms(1) have si: "struct_inv n s" and bi: "book_inv n s" and pi: "promise_inv s"
    by (simp_all add: sched_inv_def)
  from si have len: "length (tasks s) = n" by (simp add: struct_inv_def)
  have si': "struct_inv n s'"
    using si assms(5,6,10) by (simp add: struct_inv_def)
  have "struct_inv n (finally_block i out s')"
    using si' assms(2,3,4,5) len by (intro struct_inv_finally) auto
  moreover have "book_inv n (finally_block i out s')"
    using si bi assms(2-8) len by (intro book_inv_finally) auto
  moreover have "promise_inv (finally_block i out s')"
    using si pi assms(2-6,9) len by (intro promise_inv_finally) auto
  ultimately show ?thesis by (simp add: sched_inv_def)
qed

lemma sched_inv_finally_skip:
  assumes "sched_inv n s" "i < length (tasks s)" "holding (tasks s ! i)" "finished out"
  shows "sched_inv n (finally_block i out s)"
    and "sched_inv n (finally_block i out (s\<lparr>requestCount := rc\<rparr>))"
  using assms by (auto intro!: sched_inv_finally)

lemma sched_inv_finally_push:
  assumes "sched_inv n s" "i < length (tasks s)" "holding (tasks s ! i)"
  shows "sched_inv n (finally_block i Completed (push_result r s))"
  using assms
  by (intro sched_inv_finally[where s = s])
     (auto simp: push_result_fields finished_def)

lemma sched_inv_requestCount:
  "sched_inv n (s\<lparr>requestCount := rc\<rparr>) = sched_inv n s"
  by (simp add: sched_inv_def struct_inv_def book_inv_def promise_inv_def)

lemma sched_inv_cancel:
  "sched_inv n s \<Longrightarrow>
   sched_inv n (s\<lparr>cancelled_var := True, progress := (progress s)\<lparr>cancelled := True\<rparr>\<rparr>)"
  by (simp add: sched_inv_def struct_inv_def book_inv_def promise_inv_def)

lemma sched_inv_after_pacing:
  assumes "sched_inv n s" "i < length (tasks s)" "holding (tasks s ! i)"
  shows "sched_inv n (after_pacing i s)"
proof (cases "cancelled_var s")
  case True
  have "sched_inv n (finally_block i Skipped (s\<lparr>requestCount := requestCount s + 1\<rparr>))"
    using assms by (intro sched_inv_finally_skip) (auto simp: finished_def)
  with True show ?thesis by (simp add: after_pacing_def Let_def)
next
  case False
  have "sched_inv n ((s\<lparr>requestCount := requestCount s + 1\<rparr>)
          \<lparr>tasks := (tasks (s\<lparr>requestCount := requestCount s + 1\<rparr>))[i := Suggesting]\<rparr>)"
    using assms by (intro sched_inv_move) (auto simp: sched_inv_requestCount holding_def)
  with False show ?thesis by (simp add: after_pacing_def Let_def)
qed

lemma holding_simps:
  "holding Acquired" "holding Sleeping" "holding Suggesting" "holding (Confirming r)"
  "holding (Applying r ts)" "\<not> holding Queued" "\<not> holding NotStarted"
  "\<not> holding Completed" "\<not> holding Skipped" "\<not> holding (Threw e)"
  by (simp_all add: holding_def)

lemma finished_simps:
  "finished Completed" "finished Skipped" "finished (Threw e)"
  by (simp_all add: finished_def)

lemma sched_inv_step:
  assumes "sched_inv n s"
  shows "sched_inv n (step e s)"
proof (cases e)
  case CancelCalled
  with assms show ?thesis by (simp add: step_def sched_inv_cancel)
next
  case (AcquireDone i)
  with assms show ?thesis
    by (auto simp: step_def holding_simps finished_simps
             intro!: sched_inv_finally_skip sched_inv_move sched_inv_after_pacing)
next
  case (SleepDone i)
  with assms show ?thesis
    by (auto simp: step_def holding_simps intro!: sched_inv_after_pacing)
next
  case (SuggestDone i r)
  with assms show ?thesis
    by (auto simp: step_def holding_simps finished_simps
             intro!: sched_inv_finally_skip sched_inv_move sched_inv_finally_push)
next
  case (ConfirmDone i a)
  with assms show ?thesis
    by (auto simp: step_def holding_simps finished_simps
             split: pc.splits sum.splits option.splits
             intro!: sched_inv_finally_skip sched_inv_move sched_inv_finally_push)
next
  case (ApplyDone i a)
  with assms show ?thesis
    by (auto simp: step_def holding_simps finished_simps
             split: pc.splits option.splits
             intro!: sched_inv_finally_skip sched_inv_finally_push)
qed

lemma sched_inv_run: "sched_inv n s \<Longrightarrow> sched_inv n (run es s)"
  unfolding run_def by (induction es arbitrary: s) (simp_all add: sched_inv_step)

subsection \<open>The start of a batch\<close>

lemma start_inv_processItem_start:
  assumes "start_inv n k s" "k < n"
  shows "start_inv n (Suc k) (processItem_start k s)"
proof -
  from assms have len: "length (tasks s) = n" and nc: "\<not> cancelled_var s"
    and ns: "tasks s ! k = NotStarted"
    by (simp_all add: start_inv_def)
  have nh: "\<not> holding (tasks s ! k)" using ns by (simp add: holding_def)
  have kq: "k \<notin> set (queue (sem s))"
  proof
    assume "k \<in> set (queue (sem s))"
    then have "k \<in> set (admitted s @ queue (sem s))" by simp
    with assms(1) show False by (simp add: start_inv_def)
  qed
  show ?thesis
  proof (cases "active (sem s) < limit (sem s)")
    case True
    with assms(1) have qe: "queue (sem s) = []" by (auto simp: start_inv_def)
    have cnt: "length (filter holding ((tasks s)[k := Acquired])) = Suc (length (filter holding (tasks s)))"
      using nh len assms(2) by (intro count_update_gain) (auto simp: holding_def)
    have st: "processItem_start k s
       = s\<lparr>sem := (sem s)\<lparr>active := active (sem s) + 1\<rparr>, tasks := (tasks s)[k := Acquired],
           admitted := admitted s @ [k]\<rparr>"
      using nc True by (simp add: processItem_start_def acquire_def)
    show ?thesis
      unfolding st using assms True qe cnt len
      by (auto simp: start_inv_def nth_list_update less_Suc_eq)
  next
    case False
    have cnt: "length (filter holding ((tasks s)[k := Queued])) = length (filter holding (tasks s))"
      using nh len assms(2) by (intro count_update_same) (auto simp: holding_def)
    have st: "processItem_start k s
       = s\<lparr>sem := (sem s)\<lparr>queue := queue (sem s) @ [k]\<rparr>, tasks := (tasks s)[k := Queued]\<rparr>"
      using nc False by (simp add: processItem_start_def acquire_def)
    show ?thesis
      unfolding st using assms False kq cnt len
      by (auto simp: start_inv_def nth_list_update less_Suc_eq)
  qed
qed

lemma start_inv_foldl:
  assumes "start_inv n 0 s0"
  shows "k \<le> n \<Longrightarrow> start_inv n k (foldl (\<lambda>s i. processItem_start i s) s0 [0..<k])"
proof (induction k)
  case 0
  with assms show ?case by simp
next
  case (Suc k)
  then have "start_inv n k (foldl (\<lambda>s i. processItem_start i s) s0 [0..<k])" by simp
  then have "start_inv n (Suc k)
     (processItem_start k (foldl (\<lambda>s i. processItem_start i s) s0 [0..<k]))"
    using Suc.prems by (intro start_inv_processItem_start) auto
  then show ?case by simp
qed

lemma start_inv_initial:
  "start_inv n 0
     \<lparr>sem = \<lparr>queue = [], active = 0, limit = l\<rparr>, cancelled_var = False, requestCount = 0,
      interval = iv, has_confirmFn = cf, onProgress = cb,
      progress = \<lparr>total_p = n, current = 0, results = 0, cancelled = False\<rparr>,
      arrays = (\<lambda>a. []), tasks = replicate n NotStarted, admitted = [], emitted = [],
      promise = Pending\<rparr>"
  by (simp add: start_inv_def holding_def)

lemma processItem_start_limit: "limit (sem (processItem_start i s)) = limit (sem s)"
  by (simp add: processItem_start_def acquire_def)

lemma foldl_start_limit:
  "limit (sem (foldl (\<lambda>s i. processItem_start i s) s0 xs)) = limit (sem s0)"
  by (induction xs arbitrary: s0) (simp_all add: processItem_start_limit)

lemma processBatch_start_inv:
  "\<exists>s1. start_inv (length items) (length items) s1
        \<and> limit (sem s1) = (if concurrency p = 0 then 3 else concurrency p)
        \<and> processBatch p items cb cf
            = s1\<lparr>promise := (if list_all fulfilled (tasks s1) then Resolved else Pending)\<rparr>"
proof -
  let ?s0 = "\<lparr>sem = \<lparr>queue = [], active = 0,
               limit = (if concurrency p = 0 then 3 else concurrency p)\<rparr>,
         cancelled_var = False, requestCount = 0,
         interval = (if requestInterval p = 0 then 1000 else requestInterval p),
         has_confirmFn = cf, onProgress = cb,
         progress = \<lparr>total_p = length items, current = 0, results = 0, cancelled = False\<rparr>,
         arrays = (\<lambda>a. []), tasks = replicate (length items) NotStarted, admitted = [],
         emitted = [], promise = Pending\<rparr>"
  let ?s1 = "foldl (\<lambda>s i. processItem_start i s) ?s0 [0..<length items]"
  have "start_inv (length items) (length items) ?s1"
    by (intro start_inv_foldl start_inv_initial order_refl)
  moreover have "limit (sem ?s1) = (if concurrency p = 0 then 3 else concurrency p)"
    by (simp add: foldl_start_limit)
  moreover have "processBatch p items cb cf
            = ?s1\<lparr>promise := (if list_all fulfilled (tasks ?s1) then Resolved else Pending)\<rparr>"
    by (simp add: processBatch_def Let_def)
  ultimately show ?thesis by blast
qed

lemma processBatch_limit:
  "limit (sem (processBatch p items cb cf)) = (if concurrency p = 0 then 3 else concurrency p)"
  using processBatch_start_inv[of items p cb cf] by auto

lemma start_inv_all_waiting:
  assumes "start_inv n n s" "c \<in> set (tasks s)"
  shows "c = Queued \<or> c = Acquired"
proof -
  from assms(2) obtain i where "i < length (tasks s)" "tasks s ! i = c"
    by (auto simp: in_set_conv_nth)
  with assms(1) show ?thesis by (auto simp: start_inv_def)
qed

lemma sched_inv_of_start_inv:
  assumes "start_inv n n s"
  shows "sched_inv n (s\<lparr>promise := (if list_all fulfilled (tasks s) then Resolved else Pending)\<rparr>)"
proof -
  note w = start_inv_all_waiting[OF assms]
  have f: "filter finished (tasks s) = []"
    using w by (auto simp: filter_empty_conv finished_def dest!: w)
  have t: "\<not> list_ex is_threw (tasks s)"
    using w by (auto simp: list_ex_iff is_threw_def dest!: w)
  have ns: "NotStarted \<notin> set (tasks s)" using w by auto
  have "struct_inv n (s\<lparr>promise := (if list_all fulfilled (tasks s) then Resolved else Pending)\<rparr>)"
    using assms ns by (simp add: struct_inv_def start_inv_def)
  moreover
  have "book_inv n (s\<lparr>promise := (if list_all fulfilled (tasks s) then Resolved else Pending)\<rparr>)"
    using assms f by (simp add: book_inv_def start_inv_def)
  moreover
  have "promise_inv (s\<lparr>promise := (if list_all fulfilled (tasks s) then Resolved else Pending)\<rparr>)"
    using t by (simp add: promise_inv_def)
  ultimately show ?thesis by (simp add: sched_inv_def)
qed

lemma sched_inv_processBatch: "sched_inv (length items) (processBatch p items cb cf)"
  using processBatch_start_inv[of items p cb cf] sched_inv_of_start_inv by auto


lemma processBatch_active_le:
  assumes "0 \<le> limit (sem (processBatch p items cb cf))"
  shows "active (sem (processBatch p items cb cf)) \<le> limit (sem (processBatch p items cb cf))"
proof -
  obtain s1 where s1: "start_inv (length items) (length items) s1"
    "processBatch p items cb cf
       = s1\<lparr>promise := (if list_all fulfilled (tasks s1) then Resolved else Pending)\<rparr>"
    using processBatch_start_inv by blast
  show ?thesis using assms s1(1) unfolding s1(2) by (simp add: start_inv_def)
qed

text \<open>The semaphore's count never grows after the start, and its limit never changes.\<close>

lemma after_pacing_sem:
  "active (sem (after_pacing i s)) \<le> active (sem s)"
  "limit (sem (after_pacing i s)) = limit (sem s)"
  by (simp_all add: after_pacing_def Let_def finally_block_sem)

lemma step_sem:
  "active (sem (step e s)) \<le> active (sem s) \<and> limit (sem (step e s)) = limit (sem s)"
  by (cases e)
     (auto simp: step_def finally_block_sem push_result_fields after_pacing_sem
           split: pc.splits sum.splits option.splits)

lemma run_sem:
  "active (sem (run es s)) \<le> active (sem s) \<and> limit (sem (run es s)) = limit (sem s)"
proof (induction es arbitrary: s)
  case Nil
  show ?case by (simp add: run_def)
next
  case (Cons e es)
  have "run (e # es) s = run es (step e s)" by (simp add: run_def)
  with Cons[of "step e s"] step_sem[of e s] show ?case by simp
qed

lemma count_mono:
  "(\<And>x. P x \<Longrightarrow> Q x) \<Longrightarrow> length (filter P xs) \<le> length (filter Q xs)"
  by (induction xs) auto

lemma in_flight_le_active:
  assumes "struct_inv n s"
  shows "int (in_flight s) \<le> active (sem s)"
proof -
  have "length (filter is_suggesting (tasks s)) \<le> length (filter holding (tasks s))"
    by (rule count_mono) (simp add: is_suggesting_def holding_def)
  with assms show ?thesis by (simp add: in_flight_def struct_inv_def)
qed

text \<open>
  Claim C5. In every run of \<^verbatim>\<open>processBatch\<close> with a configured concurrency limit
  \<open>L \<ge> 1\<close>, at every suspension point the semaphore's limit is \<open>L\<close>, its active count
  is at most \<open>L\<close>, and so is the number of calls of \<^verbatim>\<open>suggestTags\<close> in flight; and the
  tasks admitted so far, in the order of their admission, followed by the tasks still
  waiting in the queue, are the tasks in the order of their \<^verbatim>\<open>acquire\<close> calls: admission
  is first in, first out.
\<close>

theorem concurrency_bound_and_fifo:
  assumes "1 \<le> concurrency p"
      and "s = run es (processBatch p items callback confirmFn)"
  shows "limit (sem s) = concurrency p
         \<and> active (sem s) \<le> concurrency p
         \<and> int (in_flight s) \<le> concurrency p
         \<and> admitted s @ queue (sem s) = [0..<length items]"
proof -
  let ?s0 = "processBatch p items callback confirmFn"
  have l0: "limit (sem ?s0) = concurrency p"
    using assms(1) by (simp add: processBatch_limit)
  have a0: "active (sem ?s0) \<le> limit (sem ?s0)"
    using assms(1) l0 by (intro processBatch_active_le) simp
  have inv: "sched_inv (length items) s"
    unfolding assms(2) by (intro sched_inv_run sched_inv_processBatch)
  then have si: "struct_inv (length items) s" by (simp add: sched_inv_def)
  have l: "limit (sem s) = concurrency p"
    unfolding assms(2) using run_sem[of es ?s0] l0 by simp
  have a: "active (sem s) \<le> concurrency p"
    unfolding assms(2) using run_sem[of es ?s0] l0 a0 by simp
  have f: "int (in_flight s) \<le> concurrency p"
    using in_flight_le_active[OF si] a by simp
  from si have "admitted s @ queue (sem s) = [0..<length items]"
    by (simp add: struct_inv_def)
  with l a f show ?thesis by simp
qed

theorem concurrency_bound_witness:
  "1 \<le> concurrency ex_prefs
   \<and> limit (sem (run ex_events_three (processBatch ex_prefs [ex_item, ex_item, ex_item] ex_onProgress False))) = 2
   \<and> active (sem (run ex_events_three (processBatch ex_prefs [ex_item, ex_item, ex_item] ex_onProgress False))) \<le> 2
   \<and> int (in_flight (run ex_events_three (processBatch ex_prefs [ex_item, ex_item, ex_item] ex_onProgress False))) \<le> 2
   \<and> admitted (run ex_events_three (processBatch ex_prefs [ex_item, ex_item, ex_item] ex_onProgress False))
       @ queue (sem (run ex_events_three (processBatch ex_prefs [ex_item, ex_item, ex_item] ex_onProgress False)))
       = [0, 1, 2]
   \<and> in_flight (run (take 3 ex_events_three) (processBatch ex_prefs [ex_item, ex_item, ex_item] ex_onProgress False)) = 2
   \<and> queue (sem (run (take 3 ex_events_three) (processBatch ex_prefs [ex_item, ex_item, ex_item] ex_onProgress False))) = [2]"
proof -
  have c: "concurrency ex_prefs = 2" by (simp add: ex_prefs_def)
  have e: "in_flight (run (take 3 ex_events_three) (processBatch ex_prefs [ex_item, ex_item, ex_item] ex_onProgress False)) = 2
   \<and> queue (sem (run (take 3 ex_events_three) (processBatch ex_prefs [ex_item, ex_item, ex_item] ex_onProgress False))) = [2]"
    by code_simp
  show ?thesis
    using concurrency_bound_and_fifo[where p = ex_prefs and es = ex_events_three
            and items = "[ex_item, ex_item, ex_item]" and callback = ex_onProgress
            and confirmFn = False, OF _ refl] e
    by (simp add: c upt_rec)
qed

subsection \<open>Runs\<close>

text \<open>A run extends the list of the snapshots handed out, and never changes the
  callback.\<close>

lemma after_pacing_emitted: "prefix (emitted s) (emitted (after_pacing i s))"
  by (simp add: after_pacing_def Let_def finally_block_progress)

lemma step_emitted: "prefix (emitted s) (emitted (step e s))"
  by (cases e)
     (auto simp: step_def finally_block_progress push_result_fields after_pacing_emitted
           split: pc.splits sum.splits option.splits)

lemma run_emitted: "prefix (emitted s) (emitted (run es s))"
proof (induction es arbitrary: s)
  case Nil
  show ?case by (simp add: run_def)
next
  case (Cons e es)
  have "run (e # es) s = run es (step e s)" by (simp add: run_def)
  with Cons[of "step e s"] step_emitted[of s e] show ?case
    by (metis prefix_order.order_trans)
qed

lemma run_append: "run (es @ es') s = run es' (run es s)"
  by (simp add: run_def)





subsection \<open>The counter and the skipped items\<close>

lemma fulfilled_counts:
  "list_all fulfilled ts \<Longrightarrow> length (filter finished ts) = length ts"
  by (induction ts) (auto simp: fulfilled_def finished_def split: pc.splits)

text \<open>
  In every run of \<^verbatim>\<open>processBatch\<close>, at every suspension point, the counter
  \<^verbatim>\<open>current\<close> is the number of calls of \<^verbatim>\<open>processItem\<close> that have gone through
  their \<^verbatim>\<open>finally\<close> block, whether the item completed, was skipped by cancellation or
  ended with an exception; one snapshot has been handed out for each of them, the k-th
  showing the counter at k. When the promise has resolved, the counter is the total.
\<close>

lemma counter_counts_finished_items:
  assumes "s = run es (processBatch p items callback confirmFn)"
  shows "total_p (progress s) = length items
         \<and> current (progress s) = length (filter finished (tasks s))
         \<and> length (emitted s) = current (progress s)
         \<and> (\<forall>k<length (emitted s). current (emitted s ! k) = Suc k)
         \<and> (promise s = Resolved \<longrightarrow> current (progress s) = length items)"
proof -
  have inv: "sched_inv (length items) s"
    unfolding assms by (intro sched_inv_run sched_inv_processBatch)
  then have bi: "book_inv (length items) s" and pi: "promise_inv s"
    and len: "length (tasks s) = length items"
    by (simp_all add: sched_inv_def struct_inv_def)
  have r: "current (progress s) = length items" if "promise s = Resolved"
  proof -
    from that pi have "list_all fulfilled (tasks s)" by (simp add: promise_inv_def)
    from fulfilled_counts[OF this] bi len show ?thesis by (simp add: book_inv_def)
  qed
  from bi r show ?thesis by (simp add: book_inv_def)
qed

text \<open>
  Claim C4. The code does not keep the counter apart from the skipped items. When
  \<^verbatim>\<open>cancel()\<close> is called before the only item goes on after its
  \<^verbatim>\<open>await semaphore.acquire()\<close>, the item returns at the first cancellation check of
  the \<^verbatim>\<open>try\<close> block, and the \<^verbatim>\<open>finally\<close> block still increments the counter and
  hands out a snapshot. The promise resolves with the item skipped, the counter at 1 of a
  total of 1 and no result record: the counter plus the number of skipped items is 2, not
  the total, and the skipped item has been counted and reported to the callback without a
  record.
\<close>

theorem cancelled_item_counted_without_record:
  "promise (run ex_events_cancelled (processBatch ex_prefs [ex_item] ex_onProgress False)) = Resolved
   \<and> tasks (run ex_events_cancelled (processBatch ex_prefs [ex_item] ex_onProgress False)) = [Skipped]
   \<and> skipped_count (run ex_events_cancelled (processBatch ex_prefs [ex_item] ex_onProgress False)) = 1
   \<and> current (progress (run ex_events_cancelled (processBatch ex_prefs [ex_item] ex_onProgress False))) = 1
   \<and> total_p (progress (run ex_events_cancelled (processBatch ex_prefs [ex_item] ex_onProgress False))) = 1
   \<and> cancelled (progress (run ex_events_cancelled (processBatch ex_prefs [ex_item] ex_onProgress False)))
   \<and> current (progress (run ex_events_cancelled (processBatch ex_prefs [ex_item] ex_onProgress False)))
       + skipped_count (run ex_events_cancelled (processBatch ex_prefs [ex_item] ex_onProgress False))
       \<noteq> total_p (progress (run ex_events_cancelled (processBatch ex_prefs [ex_item] ex_onProgress False)))
   \<and> results_of (run ex_events_cancelled (processBatch ex_prefs [ex_item] ex_onProgress False))
        (progress (run ex_events_cancelled (processBatch ex_prefs [ex_item] ex_onProgress False))) = []
   \<and> map current (emitted (run ex_events_cancelled (processBatch ex_prefs [ex_item] ex_onProgress False)))
       = [1]"
  by code_simp

subsection \<open>Item errors and the batch promise\<close>






































subsection \<open>Progress snapshots\<close>

lemma core_eq_finally:
  assumes "core_eq s t"
  shows "core_eq (finally_block i out s) (finally_block i out t)"
proof -
  from assms have e: "sem s = sem t" "tasks s = tasks t" "admitted s = admitted t"
    "progress s = progress t" "promise s = promise t" "arrays s = arrays t"
    "cancelled_var s = cancelled_var t" "requestCount s = requestCount t"
    "interval s = interval t" "has_confirmFn s = has_confirmFn t"
    "onProgress s = onProgress t"
    by (simp_all add: core_eq_def)
  have so: "settled_outcome s out = settled_outcome t out"
    using e by (simp add: settled_outcome_def)
  show ?thesis
    unfolding core_eq_def finally_block_sem_eq finally_block_tasks finally_block_admitted
      finally_block_progress finally_block_promise so e
    by simp
qed

lemma core_eq_push: "core_eq s t \<Longrightarrow> core_eq (push_result r s) (push_result r t)"
  by (simp add: core_eq_def push_result_def)

lemma core_eq_move:
  "core_eq s t \<Longrightarrow> core_eq (s\<lparr>tasks := x\<rparr>) (t\<lparr>tasks := x\<rparr>)"
  by (simp add: core_eq_def)

lemma core_eq_after_pacing:
  assumes "core_eq s t"
  shows "core_eq (after_pacing i s) (after_pacing i t)"
proof -
  have c: "cancelled_var s = cancelled_var t" using assms by (simp add: core_eq_def)
  have r: "core_eq (s\<lparr>requestCount := requestCount s + 1\<rparr>) (t\<lparr>requestCount := requestCount t + 1\<rparr>)"
    using assms by (simp add: core_eq_def)
  show ?thesis
  proof (cases "cancelled_var t")
    case True
    with c core_eq_finally[OF r] show ?thesis by (simp add: after_pacing_def Let_def)
  next
    case False
    from assms have "tasks s = tasks t" by (simp add: core_eq_def)
    with False c core_eq_move[OF r, of "(tasks t)[i := Suggesting]"] show ?thesis
      by (simp add: after_pacing_def Let_def)
  qed
qed

lemma core_eq_cancel:
  "core_eq s t \<Longrightarrow>
   core_eq (s\<lparr>cancelled_var := True, progress := (progress s)\<lparr>cancelled := True\<rparr>\<rparr>)
           (t\<lparr>cancelled_var := True, progress := (progress t)\<lparr>cancelled := True\<rparr>\<rparr>)"
  by (simp add: core_eq_def)

lemma core_eq_step:
  assumes "core_eq s t"
  shows "core_eq (step e s) (step e t)"
proof -
  from assms have e: "tasks s = tasks t" "cancelled_var s = cancelled_var t"
    "requestCount s = requestCount t" "interval s = interval t" "has_confirmFn s = has_confirmFn t"
    by (simp_all add: core_eq_def)
  note I = core_eq_finally core_eq_move core_eq_after_pacing core_eq_cancel core_eq_push
  show ?thesis
  proof (cases e)
    case CancelCalled
    with assms show ?thesis by (simp add: step_def core_eq_cancel)
  next
    case (AcquireDone i)
    with assms show ?thesis unfolding step_def e by (simp add: e I)
  next
    case (SleepDone i)
    with assms show ?thesis unfolding step_def e by (simp add: e I)
  next
    case (SuggestDone i r)
    with assms show ?thesis unfolding step_def e by (simp add: e I)
  next
    case (ConfirmDone i a)
    with assms show ?thesis unfolding step_def e
      by (simp add: e I split: pc.splits sum.splits option.splits)
  next
    case (ApplyDone i a)
    with assms show ?thesis unfolding step_def e
      by (simp add: e I split: pc.splits option.splits)
  qed
qed

lemma core_eq_run: "core_eq s t \<Longrightarrow> core_eq (run es s) (run es t)"
  unfolding run_def by (induction es arbitrary: s t) (simp_all add: core_eq_step)

lemma core_eq_caller_set_current: "core_eq (caller_set_current j v s) s"
  by (simp add: core_eq_def caller_set_current_def)

lemma same_suffix_finally:
  assumes "core_eq s t"
  shows "\<exists>zs. emitted (finally_block i out s) = emitted s @ zs
            \<and> emitted (finally_block i out t) = emitted t @ zs"
  using assms by (simp add: finally_block_progress core_eq_def)

lemma same_suffix_after_pacing:
  assumes "core_eq s t"
  shows "\<exists>zs. emitted (after_pacing i s) = emitted s @ zs
            \<and> emitted (after_pacing i t) = emitted t @ zs"
  using assms by (simp add: after_pacing_def Let_def finally_block_progress core_eq_def)

lemma same_suffix_step:
  assumes "core_eq s t"
  shows "\<exists>zs. emitted (step e s) = emitted s @ zs \<and> emitted (step e t) = emitted t @ zs"
proof -
  from assms have e: "tasks s = tasks t" "cancelled_var s = cancelled_var t"
    "requestCount s = requestCount t" "interval s = interval t" "has_confirmFn s = has_confirmFn t"
    "progress s = progress t"
    by (simp_all add: core_eq_def)
  show ?thesis
  proof (cases e)
    case CancelCalled
    then show ?thesis by (simp add: step_def)
  next
    case (AcquireDone i)
    then show ?thesis
      using same_suffix_after_pacing[OF assms, of i]
      unfolding step_def e by (simp add: e finally_block_progress)
  next
    case (SleepDone i)
    then show ?thesis
      using same_suffix_after_pacing[OF assms, of i]
      unfolding step_def e by (simp add: e)
  next
    case (SuggestDone i r)
    then show ?thesis unfolding step_def e
      by (simp add: e finally_block_progress push_result_fields)
  next
    case (ConfirmDone i a)
    then show ?thesis unfolding step_def e
      by (simp add: e finally_block_progress push_result_fields
               split: pc.splits sum.splits option.splits)
  next
    case (ApplyDone i a)
    then show ?thesis unfolding step_def e
      by (simp add: e finally_block_progress push_result_fields
               split: pc.splits option.splits)
  qed
qed

lemma snapshot_update_run:
  assumes "core_eq s t" "emitted t = (emitted s)[j := a]" "j < length (emitted s)"
  shows "core_eq (run es s) (run es t) \<and> emitted (run es t) = (emitted (run es s))[j := a]"
  using assms
proof (induction es arbitrary: s t)
  case Nil
  then show ?case by (simp add: run_def)
next
  case (Cons e es)
  have r: "run (e # es) u = run es (step e u)" for u by (simp add: run_def)
  obtain zs where zs: "emitted (step e s) = emitted s @ zs" "emitted (step e t) = emitted t @ zs"
    using same_suffix_step[OF Cons.prems(1)] by blast
  have u: "emitted (step e t) = (emitted (step e s))[j := a]"
    using zs Cons.prems(2,3) by (simp add: list_update_append1)
  have l: "j < length (emitted (step e s))" using zs Cons.prems(3) by simp
  from Cons.IH[OF core_eq_step[OF Cons.prems(1)] u l] show ?case unfolding r .
qed

text \<open>
  Claim C6, as amended. Every snapshot handed to \<^verbatim>\<open>onProgress\<close> is a new object that
  copies the fields of the internal progress object, the reference to the results list
  included. Later steps of the scheduler leave the snapshot's fields as they were handed
  out; assigning to the \<^verbatim>\<open>current\<close> field of a snapshot changes neither the internal
  progress object nor anything the scheduler does afterwards, nor any other snapshot. The
  results list is not copied: every snapshot refers to the list the scheduler itself
  appends to.
\<close>

theorem snapshots_are_shallow_copies:
  assumes "s = run es (processBatch p items callback confirmFn)"
      and "s' = run es' s"
  shows "prefix (emitted s) (emitted s')
         \<and> (\<forall>k<length (emitted s).
               emitted s' ! k = emitted s ! k
               \<and> total_p (emitted s ! k) = length items
               \<and> current (emitted s ! k) = Suc k
               \<and> results (emitted s ! k) = results (progress s')
               \<and> results_of s' (emitted s' ! k) = results_of s' (progress s'))
         \<and> progress (caller_set_current j v s) = progress s
         \<and> arrays (caller_set_current j v s) = arrays s
         \<and> (j < length (emitted s) \<longrightarrow>
               core_eq (run es' s) (run es' (caller_set_current j v s))
               \<and> emitted (run es' (caller_set_current j v s))
                   = (emitted s')[j := (emitted s ! j)\<lparr>current := v\<rparr>])"
proof -
  have inv: "sched_inv (length items) s"
    unfolding assms(1) by (intro sched_inv_run sched_inv_processBatch)
  have inv': "sched_inv (length items) s'"
    unfolding assms(2) using inv by (rule sched_inv_run)
  from inv have bi: "book_inv (length items) s" by (simp add: sched_inv_def)
  from inv' have bi': "book_inv (length items) s'" by (simp add: sched_inv_def)
  have pre: "prefix (emitted s) (emitted s')"
    unfolding assms(2) by (rule run_emitted)
  then obtain zs where zs: "emitted s' = emitted s @ zs" by (auto simp: prefix_def)
  have snap: "emitted s' ! k = emitted s ! k
               \<and> total_p (emitted s ! k) = length items
               \<and> current (emitted s ! k) = Suc k
               \<and> results (emitted s ! k) = results (progress s')
               \<and> results_of s' (emitted s' ! k) = results_of s' (progress s')"
    if k: "k < length (emitted s)" for k
  proof -
    have same: "emitted s' ! k = emitted s ! k" using k zs by (simp add: nth_append)
    have k': "k < length (emitted s')" using k zs by simp
    from bi k have "total_p (emitted s ! k) = length items" "current (emitted s ! k) = Suc k"
      by (simp_all add: book_inv_def)
    moreover from bi' k' have "results (emitted s' ! k) = results (progress s')"
      by (simp add: book_inv_def)
    ultimately show ?thesis using same by (simp add: results_of_def)
  qed
  have c: "progress (caller_set_current j v s) = progress s"
          "arrays (caller_set_current j v s) = arrays s"
    by (simp_all add: caller_set_current_def)
  have f: "core_eq (run es' s) (run es' (caller_set_current j v s))
           \<and> emitted (run es' (caller_set_current j v s))
               = (emitted s')[j := (emitted s ! j)\<lparr>current := v\<rparr>]"
    if j: "j < length (emitted s)"
    unfolding assms(2)
    using _ _ j by (rule snapshot_update_run) (simp_all add: core_eq_def caller_set_current_def)
  from pre snap c f show ?thesis by blast
qed

theorem snapshots_witness:
  "length (emitted (run ex_events_first (processBatch ex_prefs [ex_item, ex_item] ex_onProgress False))) = 1
   \<and> emitted (run ex_events_second (run ex_events_first (processBatch ex_prefs [ex_item, ex_item] ex_onProgress False))) ! 0
       = emitted (run ex_events_first (processBatch ex_prefs [ex_item, ex_item] ex_onProgress False)) ! 0
   \<and> current (emitted (run ex_events_first (processBatch ex_prefs [ex_item, ex_item] ex_onProgress False)) ! 0) = 1
   \<and> total_p (emitted (run ex_events_first (processBatch ex_prefs [ex_item, ex_item] ex_onProgress False)) ! 0) = 2
   \<and> progress (caller_set_current 0 5 (run ex_events_first (processBatch ex_prefs [ex_item, ex_item] ex_onProgress False)))
       = progress (run ex_events_first (processBatch ex_prefs [ex_item, ex_item] ex_onProgress False))
   \<and> 0 < length (emitted (run ex_events_first (processBatch ex_prefs [ex_item, ex_item] ex_onProgress False)))
   \<and> core_eq (run ex_events_second (run ex_events_first (processBatch ex_prefs [ex_item, ex_item] ex_onProgress False)))
        (run ex_events_second
           (caller_set_current 0 5 (run ex_events_first (processBatch ex_prefs [ex_item, ex_item] ex_onProgress False))))"
proof -
  let ?s = "run ex_events_first (processBatch ex_prefs [ex_item, ex_item] ex_onProgress False)"
  have l: "length (emitted ?s) = 1" by code_simp
  note T = snapshots_are_shallow_copies[where s = ?s and es = ex_events_first and p = ex_prefs
      and items = "[ex_item, ex_item]" and callback = ex_onProgress and confirmFn = False
      and es' = ex_events_second
      and j = 0 and v = 5, OF refl refl]
  from T have "\<forall>k<length (emitted ?s).
               emitted (run ex_events_second ?s) ! k = emitted ?s ! k
               \<and> total_p (emitted ?s ! k) = length [ex_item, ex_item]
               \<and> current (emitted ?s ! k) = Suc k" by blast
  with l have a: "emitted (run ex_events_second ?s) ! 0 = emitted ?s ! 0"
     "total_p (emitted ?s ! 0) = 2" "current (emitted ?s ! 0) = 1" by simp_all
  from T have b: "progress (caller_set_current 0 5 ?s) = progress ?s" by blast
  from l have p: "0 < length (emitted ?s)" by simp
  with T have c: "core_eq (run ex_events_second ?s) (run ex_events_second (caller_set_current 0 5 ?s))"
    by blast
  from l a b p c show ?thesis by simp
qed

text \<open>
  Claim C6 as stated fails: a record pushed onto the results of a snapshot appears in the
  scheduler's own results, and a record the scheduler appends after a snapshot was handed
  out appears in that snapshot's results.
\<close>

theorem snapshot_shares_results_list:
  "length (emitted (run ex_events_first (processBatch ex_prefs [ex_item, ex_item] ex_onProgress False))) = 1
   \<and> results_of (run ex_events_first (processBatch ex_prefs [ex_item, ex_item] ex_onProgress False))
        (progress (run ex_events_first (processBatch ex_prefs [ex_item, ex_item] ex_onProgress False)))
       = [ex_failed]
   \<and> results_of (caller_push 0 ex_suggested
                    (run ex_events_first (processBatch ex_prefs [ex_item, ex_item] ex_onProgress False)))
        (progress (caller_push 0 ex_suggested
                    (run ex_events_first (processBatch ex_prefs [ex_item, ex_item] ex_onProgress False))))
       = [ex_failed, ex_suggested]
   \<and> results_of (run ex_events_first (processBatch ex_prefs [ex_item, ex_item] ex_onProgress False))
        (emitted (run ex_events_first (processBatch ex_prefs [ex_item, ex_item] ex_onProgress False)) ! 0)
       = [ex_failed]
   \<and> emitted (run ex_events_second
                 (run ex_events_first (processBatch ex_prefs [ex_item, ex_item] ex_onProgress False))) ! 0
       = emitted (run ex_events_first (processBatch ex_prefs [ex_item, ex_item] ex_onProgress False)) ! 0
   \<and> results_of (run ex_events_second
                    (run ex_events_first (processBatch ex_prefs [ex_item, ex_item] ex_onProgress False)))
        (emitted (run ex_events_first (processBatch ex_prefs [ex_item, ex_item] ex_onProgress False)) ! 0)
       = [ex_failed, ex_failed]"
  by code_simp

end
